theory Spec2Isabelle
  imports Main
begin

section \<open>JSON values and the runtime's JSON codec\<close>

text \<open>
  The handlers receive request bodies already parsed by \<^verbatim>\<open>req.json()\<close> and keep node
  payloads as text produced by \<^verbatim>\<open>JSON.stringify\<close>, read back with \<^verbatim>\<open>JSON.parse\<close>.
  A JSON value is modelled as a tree. Numbers are integers (floating point is not
  modelled), strings are byte strings, and an object is the list of its members in
  enumeration order.
\<close>

datatype json =
    JNull
  | JBool bool
  | JNum int
  | JStr string
  | JArr "json list"
  | JObj "(string \<times> json) list"

subsection \<open>\<^verbatim>\<open>JSON.stringify\<close>\<close>

definition digit_char :: "nat \<Rightarrow> char" where
  "digit_char d = ''0123456789abcdef'' ! d"

text \<open>
  Escapes as \<^verbatim>\<open>JSON.stringify\<close> writes them: the quote, the backslash, the five short
  escapes, and \<^verbatim>\<open>\u00XX\<close> for the other control characters.
\<close>

definition escape_char :: "char \<Rightarrow> string" where
  "escape_char c =
     (if c = CHR 0x22 then [CHR 0x5C, CHR 0x22]
      else if c = CHR 0x5C then [CHR 0x5C, CHR 0x5C]
      else if c = CHR 0x08 then [CHR 0x5C, CHR ''b'']
      else if c = CHR 0x0C then [CHR 0x5C, CHR ''f'']
      else if c = CHR 0x0A then [CHR 0x5C, CHR ''n'']
      else if c = CHR 0x0D then [CHR 0x5C, CHR ''r'']
      else if c = CHR 0x09 then [CHR 0x5C, CHR ''t'']
      else if (of_char c :: nat) < 0x20
        then [CHR 0x5C, CHR ''u'', CHR ''0'', CHR ''0'',
              digit_char (of_char c div 16), digit_char (of_char c mod 16)]
      else [c])"

definition quote :: "string \<Rightarrow> string" where
  "quote s = CHR 0x22 # concat (map escape_char s) @ [CHR 0x22]"

fun digits :: "nat \<Rightarrow> string" where
  "digits n = (if n < 10 then [digit_char n] else digits (n div 10) @ [digit_char (n mod 10)])"

declare digits.simps [simp del]

definition show_int :: "int \<Rightarrow> string" where
  "show_int i = (if i < 0 then CHR ''-'' # digits (nat (- i)) else digits (nat i))"

fun JSON_stringify :: "json \<Rightarrow> string"
  and stringify_elements :: "json list \<Rightarrow> string"
  and stringify_members :: "(string \<times> json) list \<Rightarrow> string" where
  "JSON_stringify JNull = ''null''"
| "JSON_stringify (JBool b) = (if b then ''true'' else ''false'')"
| "JSON_stringify (JNum i) = show_int i"
| "JSON_stringify (JStr s) = quote s"
| "JSON_stringify (JArr vs) = CHR ''['' # stringify_elements vs"
| "JSON_stringify (JObj ms) = CHR ''{'' # stringify_members ms"
| "stringify_elements [] = '']''"
| "stringify_elements [v] = JSON_stringify v @ '']''"
| "stringify_elements (v # w # vs) = JSON_stringify v @ '','' @ stringify_elements (w # vs)"
| "stringify_members [] = ''}''"
| "stringify_members [(k, v)] = quote k @ '':'' @ JSON_stringify v @ ''}''"
| "stringify_members ((k, v) # m # ms) =
     quote k @ '':'' @ JSON_stringify v @ '','' @ stringify_members (m # ms)"

subsection \<open>\<^verbatim>\<open>JSON.parse\<close>\<close>

text \<open>
  A recursive-descent parser for the JSON grammar, with whitespace between tokens.
  \<open>SyntaxError\<close> is the exception \<^verbatim>\<open>JSON.parse\<close> throws. Two results mark the limits
  of the model rather than behaviour of the runtime: \<open>Unsupported\<close> for a number with a
  fraction or exponent and for a \<^verbatim>\<open>\u\<close> escape above 0x7F, and \<open>OutOfFuel\<close> for the
  recursion bound. \<open>JSON_parse\<close> sets the bound from the length of the text, which
  is always enough (lemma \<open>JSON_parse_fuel_enough\<close>).
\<close>

datatype parse_error = SyntaxError | Unsupported | OutOfFuel

definition is_ws :: "char \<Rightarrow> bool" where
  "is_ws c \<longleftrightarrow> c = CHR '' '' \<or> c = CHR 0x09 \<or> c = CHR 0x0A \<or> c = CHR 0x0D"

fun skip_ws :: "string \<Rightarrow> string" where
  "skip_ws [] = []"
| "skip_ws (c # cs) = (if is_ws c then skip_ws cs else c # cs)"

definition is_digit :: "char \<Rightarrow> bool" where
  "is_digit c \<longleftrightarrow> 48 \<le> (of_char c :: nat) \<and> (of_char c :: nat) \<le> 57"

definition hex_val :: "char \<Rightarrow> nat option" where
  "hex_val c =
     (let n = (of_char c :: nat) in
      if 48 \<le> n \<and> n \<le> 57 then Some (n - 48)
      else if 97 \<le> n \<and> n \<le> 102 then Some (n - 87)
      else if 65 \<le> n \<and> n \<le> 70 then Some (n - 55)
      else None)"

definition digits_val :: "string \<Rightarrow> nat" where
  "digits_val ds = foldl (\<lambda>a c. 10 * a + (of_char c - 48)) 0 ds"

definition unescape :: "char \<Rightarrow> char option" where
  "unescape e =
     (if e = CHR 0x22 then Some (CHR 0x22)
      else if e = CHR 0x5C then Some (CHR 0x5C)
      else if e = CHR ''/'' then Some (CHR ''/'')
      else if e = CHR ''b'' then Some (CHR 0x08)
      else if e = CHR ''f'' then Some (CHR 0x0C)
      else if e = CHR ''n'' then Some (CHR 0x0A)
      else if e = CHR ''r'' then Some (CHR 0x0D)
      else if e = CHR ''t'' then Some (CHR 0x09)
      else None)"

definition hex4 :: "char \<Rightarrow> char \<Rightarrow> char \<Rightarrow> char \<Rightarrow> nat option" where
  "hex4 a b c d =
     (case (hex_val a, hex_val b, hex_val c, hex_val d) of
        (Some w, Some x, Some y, Some z) \<Rightarrow> Some (4096 * w + 256 * x + 16 * y + z)
      | _ \<Rightarrow> None)"

definition cons_char :: "char \<Rightarrow> parse_error + string \<times> string \<Rightarrow> parse_error + string \<times> string" where
  "cons_char c r = (case r of Inl e \<Rightarrow> Inl e | Inr (s, rest) \<Rightarrow> Inr (c # s, rest))"

fun parse_chars :: "string \<Rightarrow> parse_error + string \<times> string" where
  "parse_chars [] = Inl SyntaxError"
| "parse_chars (c # cs) =
     (if c = CHR 0x22 then Inr ([], cs)
      else if c = CHR 0x5C then
        (case cs of
           [] \<Rightarrow> Inl SyntaxError
         | e # es \<Rightarrow>
             if e = CHR ''u'' then
               (case es of
                  h1 # h2 # h3 # h4 # r \<Rightarrow>
                    (case hex4 h1 h2 h3 h4 of
                       None \<Rightarrow> Inl SyntaxError
                     | Some n \<Rightarrow>
                         if n < 128 then cons_char (char_of n) (parse_chars r)
                         else Inl Unsupported)
                | _ \<Rightarrow> Inl SyntaxError)
             else
               (case unescape e of
                  None \<Rightarrow> Inl SyntaxError
                | Some ch \<Rightarrow> cons_char ch (parse_chars es)))
      else if (of_char c :: nat) < 0x20 then Inl SyntaxError
      else cons_char c (parse_chars cs))"

definition parse_number :: "string \<Rightarrow> parse_error + json \<times> string" where
  "parse_number s =
     (let neg = (s \<noteq> [] \<and> hd s = CHR ''-'');
          s1 = (if neg then tl s else s);
          ds = takeWhile is_digit s1;
          r = dropWhile is_digit s1
      in if ds = [] then Inl SyntaxError
         else if hd ds = CHR ''0'' \<and> tl ds \<noteq> [] then Inl SyntaxError
         else if r \<noteq> [] \<and> hd r \<in> set ''.eE'' then Inl Unsupported
         else Inr (JNum (if neg then - int (digits_val ds) else int (digits_val ds)), r))"

definition parse_literal :: "string \<Rightarrow> json \<Rightarrow> string \<Rightarrow> parse_error + json \<times> string" where
  "parse_literal lit v s =
     (if take (length lit) s = lit then Inr (v, drop (length lit) s) else Inl SyntaxError)"

fun parse_value :: "nat \<Rightarrow> string \<Rightarrow> parse_error + json \<times> string"
  and parse_elements :: "nat \<Rightarrow> string \<Rightarrow> parse_error + json list \<times> string"
  and parse_members :: "nat \<Rightarrow> string \<Rightarrow> parse_error + (string \<times> json) list \<times> string" where
  "parse_value 0 s = Inl OutOfFuel"
| "parse_value (Suc n) s =
     (case skip_ws s of
        [] \<Rightarrow> Inl SyntaxError
      | c # cs \<Rightarrow>
          if c = CHR ''{'' then
            (case skip_ws cs of
               [] \<Rightarrow> Inl SyntaxError
             | d # ds \<Rightarrow>
                 if d = CHR ''}'' then Inr (JObj [], ds)
                 else (case parse_members n (d # ds) of
                         Inl e \<Rightarrow> Inl e
                       | Inr (ms, r) \<Rightarrow> Inr (JObj ms, r)))
          else if c = CHR ''['' then
            (case skip_ws cs of
               [] \<Rightarrow> Inl SyntaxError
             | d # ds \<Rightarrow>
                 if d = CHR '']'' then Inr (JArr [], ds)
                 else (case parse_elements n (d # ds) of
                         Inl e \<Rightarrow> Inl e
                       | Inr (vs, r) \<Rightarrow> Inr (JArr vs, r)))
          else if c = CHR 0x22 then
            (case parse_chars cs of
               Inl e \<Rightarrow> Inl e
             | Inr (str, r) \<Rightarrow> Inr (JStr str, r))
          else if c = CHR ''t'' then parse_literal ''true'' (JBool True) (c # cs)
          else if c = CHR ''f'' then parse_literal ''false'' (JBool False) (c # cs)
          else if c = CHR ''n'' then parse_literal ''null'' JNull (c # cs)
          else parse_number (c # cs))"
| "parse_elements 0 s = Inl OutOfFuel"
| "parse_elements (Suc n) s =
     (case parse_value (Suc n) s of
        Inl e \<Rightarrow> Inl e
      | Inr (v, r) \<Rightarrow>
          (case skip_ws r of
             [] \<Rightarrow> Inl SyntaxError
           | c # cs \<Rightarrow>
               if c = CHR '','' then
                 (case parse_elements n cs of
                    Inl e \<Rightarrow> Inl e
                  | Inr (vs, r') \<Rightarrow> Inr (v # vs, r'))
               else if c = CHR '']'' then Inr ([v], cs)
               else Inl SyntaxError))"
| "parse_members 0 s = Inl OutOfFuel"
| "parse_members (Suc n) s =
     (case skip_ws s of
        [] \<Rightarrow> Inl SyntaxError
      | q # qs \<Rightarrow>
          if q \<noteq> CHR 0x22 then Inl SyntaxError
          else
            (case parse_chars qs of
               Inl e \<Rightarrow> Inl e
             | Inr (k, r) \<Rightarrow>
                 (case skip_ws r of
                    [] \<Rightarrow> Inl SyntaxError
                  | c # cs \<Rightarrow>
                      if c \<noteq> CHR '':'' then Inl SyntaxError
                      else
                        (case parse_value (Suc n) cs of
                           Inl e \<Rightarrow> Inl e
                         | Inr (v, r') \<Rightarrow>
                             (case skip_ws r' of
                                [] \<Rightarrow> Inl SyntaxError
                              | d # ds \<Rightarrow>
                                  if d = CHR '','' then
                                    (case parse_members n ds of
                                       Inl e \<Rightarrow> Inl e
                                     | Inr (ms, r'') \<Rightarrow> Inr ((k, v) # ms, r''))
                                  else if d = CHR ''}'' then Inr ([(k, v)], ds)
                                  else Inl SyntaxError)))))"

definition JSON_parse :: "string \<Rightarrow> parse_error + json" where
  "JSON_parse s =
     (case parse_value (Suc (length s)) s of
        Inl e \<Rightarrow> Inl e
      | Inr (v, r) \<Rightarrow> if skip_ws r = [] then Inr v else Inl SyntaxError)"


section \<open>Wire types\<close>

text \<open>
  A property of a request or response object that may be missing: \<open>Undefined\<close> is an
  absent field, \<open>Null\<close> a field holding \<^verbatim>\<open>null\<close>. \<^verbatim>\<open>NextResponse.json\<close> leaves
  \<open>Undefined\<close> fields out of the response text.
\<close>

datatype 'a js = Undefined | Null | Val 'a

text \<open>\<^verbatim>\<open>type NodeCall = { stepIndex: number; input: any; output: any }\<close>\<close>

record NodeCall =
  stepIndex :: int
  input :: "json option"
  "output" :: "json option"

text \<open>\<^verbatim>\<open>type EdgeCall = { source: string; target: string; conditionKey?: string; used_count?: number }\<close>\<close>

record EdgeCall =
  source :: string
  target :: string
  conditionKey :: "string js"
  used_count :: "int js"

text \<open>
  The body of \<^verbatim>\<open>POST /api/graph/ingest\<close>. The \<open>nodes\<close> object is the list of its
  entries in the order \<^verbatim>\<open>Object.keys\<close> enumerates them.
\<close>

record IngestBody =
  graphId :: "string js"
  nodes :: "(string \<times> NodeCall list) list js"
  edges :: "EdgeCall list js"

text \<open>The body of \<^verbatim>\<open>POST /api/graph/start\<close>.\<close>

record StartBody =
  start_graphId :: "string js"
  start_name :: "string js"

text \<open>The body of a successful \<^verbatim>\<open>GET /api/graph/load\<close> response.\<close>

record LoadBody =
  resp_nodes :: "(string \<times> NodeCall list) list"
  resp_edges :: "EdgeCall list"

text \<open>
  \<open>Json b\<close> is \<^verbatim>\<open>NextResponse.json(b)\<close>; \<open>Failed msg status\<close> is
  \<^verbatim>\<open>NextResponse.json({ error: msg }, { status })\<close>.
\<close>

datatype 'a response = Json 'a | Failed string nat

datatype error =
    Error string
  | PrismaValidationError
  | UniqueConstraintViolation
  | ForeignKeyViolation
  | ParseFailure parse_error
  | TypeError

section \<open>The store (\<^verbatim>\<open>prisma/schema.prisma\<close>)\<close>

record Graph =
  graph_id :: string
  graph_name :: string
  createdAt :: nat

record Step =
  step_id :: nat
  step_graphId :: string
  nodeName :: string
  step_stepIndex :: int
  inputJson :: string
  outputJson :: string

record Edge =
  edge_id :: nat
  edge_graphId :: string
  sourceNode :: string
  targetNode :: string
  edge_conditionKey :: "string option"
  usedCount :: "int option"

text \<open>
  Each table is the list of its rows in insertion order, which for \<open>Step\<close> and \<open>Edge\<close>
  is the order of the autoincrement key; \<open>step_seq\<close> and \<open>edge_seq\<close> are the next keys.
  \<^verbatim>\<open>findMany\<close> without \<^verbatim>\<open>orderBy\<close> is taken to return rows in that order.
\<close>

record store =
  graph_tbl :: "Graph list"
  step_tbl :: "Step list"
  edge_tbl :: "Edge list"
  step_seq :: nat
  edge_seq :: nat

definition graph_ids :: "store \<Rightarrow> string set" where
  "graph_ids st = graph_id ` set (graph_tbl st)"

text \<open>
  \<^verbatim>\<open>prisma.graph.create({ data: { id, name } })\<close>. An absent \<open>id\<close> takes the column
  default \<^verbatim>\<open>@default(uuid())\<close>, passed here as \<open>uuid\<close>; \<open>createdAt\<close> takes
  \<^verbatim>\<open>@default(now())\<close>, passed as \<open>now\<close>. \<^verbatim>\<open>null\<close> is rejected for the required
  column, a duplicate key by the primary-key constraint.
\<close>

definition graph_create :: "string js \<Rightarrow> string \<Rightarrow> string \<Rightarrow> nat \<Rightarrow> store \<Rightarrow> error + Graph \<times> store" where
  "graph_create ident nm uuid now st =
     (case ident of
        Null \<Rightarrow> Inl PrismaValidationError
      | _ \<Rightarrow>
          (let g = \<lparr>graph_id = (case ident of Val i \<Rightarrow> i | _ \<Rightarrow> uuid),
                    graph_name = nm, createdAt = now\<rparr>
           in if graph_id g \<in> graph_ids st then Inl UniqueConstraintViolation
              else Inr (g, st\<lparr>graph_tbl := graph_tbl st @ [g]\<rparr>)))"

definition step_deleteMany :: "string \<Rightarrow> store \<Rightarrow> store" where
  "step_deleteMany g st = st\<lparr>step_tbl := filter (\<lambda>r. step_graphId r \<noteq> g) (step_tbl st)\<rparr>"

definition edge_deleteMany :: "string \<Rightarrow> store \<Rightarrow> store" where
  "edge_deleteMany g st = st\<lparr>edge_tbl := filter (\<lambda>r. edge_graphId r \<noteq> g) (edge_tbl st)\<rparr>"

definition step_findMany :: "string \<Rightarrow> store \<Rightarrow> Step list" where
  "step_findMany g st = filter (\<lambda>r. step_graphId r = g) (step_tbl st)"

definition edge_findMany :: "string \<Rightarrow> store \<Rightarrow> Edge list" where
  "edge_findMany g st = filter (\<lambda>r. edge_graphId r = g) (edge_tbl st)"

text \<open>
  \<^verbatim>\<open>prisma.step.create\<close> and \<^verbatim>\<open>prisma.edge.create\<close>: the relation to \<open>Graph\<close> is a
  foreign key, so the insert is refused when no Graph row has the id. A refused insert
  leaves the store as it was.
\<close>

definition step_create :: "string \<Rightarrow> string \<Rightarrow> int \<Rightarrow> string \<Rightarrow> string \<Rightarrow> store \<Rightarrow> error + store" where
  "step_create g n i inText outText st =
     (if g \<notin> graph_ids st then Inl ForeignKeyViolation
      else Inr (st\<lparr>step_tbl := step_tbl st @
                      [\<lparr>step_id = step_seq st, step_graphId = g, nodeName = n,
                        step_stepIndex = i, inputJson = inText, outputJson = outText\<rparr>],
                   step_seq := Suc (step_seq st)\<rparr>))"

definition edge_create :: "string \<Rightarrow> string \<Rightarrow> string \<Rightarrow> string option \<Rightarrow> int option \<Rightarrow> store \<Rightarrow> error + store" where
  "edge_create g s t k u st =
     (if g \<notin> graph_ids st then Inl ForeignKeyViolation
      else Inr (st\<lparr>edge_tbl := edge_tbl st @
                      [\<lparr>edge_id = edge_seq st, edge_graphId = g, sourceNode = s,
                        targetNode = t, edge_conditionKey = k, usedCount = u\<rparr>],
                   edge_seq := Suc (edge_seq st)\<rparr>))"

section \<open>\<^verbatim>\<open>POST /api/graph/start\<close>\<close>

text \<open>\<^verbatim>\<open>body.name || "Untitled"\<close>\<close>

definition name_or_untitled :: "string js \<Rightarrow> string" where
  "name_or_untitled n = (case n of Val s \<Rightarrow> if s = [] then ''Untitled'' else s | _ \<Rightarrow> ''Untitled'')"

definition POST_start :: "string \<Rightarrow> nat \<Rightarrow> store \<Rightarrow> StartBody \<Rightarrow> string response \<times> store" where
  "POST_start uuid now st body =
     (let graphId = start_graphId body;
          name = name_or_untitled (start_name body)
      in case graph_create graphId name uuid now st of
           Inr (newGraph, st') \<Rightarrow> (Json (graph_id newGraph), st')
         | Inl err \<Rightarrow> (Failed ''Failed to create graph'' 500, st))"

section \<open>\<^verbatim>\<open>POST /api/graph/ingest\<close>\<close>

text \<open>JavaScript truthiness of a JSON value, and \<^verbatim>\<open>call.input || {}\<close>.\<close>

fun truthy :: "json \<Rightarrow> bool" where
  "truthy JNull = False"
| "truthy (JBool b) = b"
| "truthy (JNum i) = (i \<noteq> 0)"
| "truthy (JStr s) = (s \<noteq> [])"
| "truthy (JArr vs) = True"
| "truthy (JObj ms) = True"

definition or_empty_object :: "json option \<Rightarrow> json" where
  "or_empty_object p = (case p of Some v \<Rightarrow> if truthy v then v else JObj [] | None \<Rightarrow> JObj [])"

text \<open>\<^verbatim>\<open>ed.used_count || 0\<close>\<close>

definition or_zero :: "int js \<Rightarrow> int" where
  "or_zero u = (case u of Val n \<Rightarrow> n | _ \<Rightarrow> 0)"

text \<open>A \<^verbatim>\<open>null\<close> or absent \<open>conditionKey\<close> is stored as NULL.\<close>

definition nullable :: "'a js \<Rightarrow> 'a option" where
  "nullable x = (case x of Val v \<Rightarrow> Some v | _ \<Rightarrow> None)"

text \<open>\<^verbatim>\<open>body.nodes || {}\<close> and \<^verbatim>\<open>body.edges || []\<close>\<close>

definition or_empty :: "'a list js \<Rightarrow> 'a list" where
  "or_empty x = (case x of Val v \<Rightarrow> v | _ \<Rightarrow> [])"

text \<open>
  The loops of the handler. No transaction spans them: when a \<^verbatim>\<open>create\<close> throws, the
  rows written before it stay, so each loop returns the store it reached together with
  the exception, if any.
\<close>

fun insert_calls :: "string \<Rightarrow> string \<Rightarrow> NodeCall list \<Rightarrow> store \<Rightarrow> error option \<times> store" where
  "insert_calls g n [] st = (None, st)"
| "insert_calls g n (call # calls) st =
     (case step_create g n (stepIndex call)
             (JSON_stringify (or_empty_object (input call)))
             (JSON_stringify (or_empty_object (output call))) st of
        Inl err \<Rightarrow> (Some err, st)
      | Inr st' \<Rightarrow> insert_calls g n calls st')"

fun insert_nodes :: "string \<Rightarrow> (string \<times> NodeCall list) list \<Rightarrow> store \<Rightarrow> error option \<times> store" where
  "insert_nodes g [] st = (None, st)"
| "insert_nodes g ((n, calls) # rest) st =
     (case insert_calls g n calls st of
        (Some err, st') \<Rightarrow> (Some err, st')
      | (None, st') \<Rightarrow> insert_nodes g rest st')"

fun insert_edges :: "string \<Rightarrow> EdgeCall list \<Rightarrow> store \<Rightarrow> error option \<times> store" where
  "insert_edges g [] st = (None, st)"
| "insert_edges g (ed # eds) st =
     (case edge_create g (source ed) (target ed) (nullable (conditionKey ed))
             (Some (or_zero (used_count ed))) st of
        Inl err \<Rightarrow> (Some err, st)
      | Inr st' \<Rightarrow> insert_edges g eds st')"

definition POST_ingest :: "store \<Rightarrow> IngestBody \<Rightarrow> string response \<times> store" where
  "POST_ingest st body =
     (case graphId body of
        Val g \<Rightarrow>
          if g = [] then (Failed ''Failed'' 500, st)
          else
            (let st1 = step_deleteMany g st;
                 st2 = edge_deleteMany g st1;
                 nodesObj = or_empty (nodes body)
             in case insert_nodes g nodesObj st2 of
                  (Some err, st3) \<Rightarrow> (Failed ''Failed'' 500, st3)
                | (None, st3) \<Rightarrow>
                    (let edgesArr = or_empty (edges body)
                     in case insert_edges g edgesArr st3 of
                          (Some err, st4) \<Rightarrow> (Failed ''Failed'' 500, st4)
                        | (None, st4) \<Rightarrow> (Json ''ok'', st4)))
      | _ \<Rightarrow> (Failed ''Failed'' 500, st))"

section \<open>\<^verbatim>\<open>GET /api/graph/load\<close>\<close>

text \<open>
  The handler collects the calls in a plain object \<^verbatim>\<open>nodes = {}\<close>, which inherits
  from \<^verbatim>\<open>Object.prototype\<close>. For a name that the prototype defines,
  \<^verbatim>\<open>nodes[name]\<close> is the inherited value: it is truthy, so no array is created, and
  it has no \<^verbatim>\<open>push\<close>, so the call throws a \<open>TypeError\<close>.
\<close>

definition Object_prototype_keys :: "string list" where
  "Object_prototype_keys =
     [''constructor'', ''__defineGetter__'', ''__defineSetter__'', ''hasOwnProperty'',
      ''__lookupGetter__'', ''__lookupSetter__'', ''isPrototypeOf'', ''propertyIsEnumerable'',
      ''toString'', ''valueOf'', ''__proto__'', ''toLocaleString'']"

definition has_own :: "(string \<times> 'a) list \<Rightarrow> string \<Rightarrow> bool" where
  "has_own obj k \<longleftrightarrow> k \<in> fst ` set obj"

text \<open>\<^verbatim>\<open>obj[k].push(c)\<close> on an own property \<open>k\<close>\<close>

definition push_to :: "string \<Rightarrow> 'a \<Rightarrow> (string \<times> 'a list) list \<Rightarrow> (string \<times> 'a list) list" where
  "push_to k c obj = map (\<lambda>(k', cs). if k' = k then (k', cs @ [c]) else (k', cs)) obj"

text \<open>\<^verbatim>\<open>JSON.parse(s.inputJson || "{}")\<close>\<close>

definition parse_or_empty :: "string \<Rightarrow> parse_error + json" where
  "parse_or_empty txt = JSON_parse (if txt = [] then ''{}'' else txt)"

text \<open>
  One iteration of \<^verbatim>\<open>for (const s of steps)\<close>. The arguments of \<^verbatim>\<open>push\<close> are
  evaluated before the call, so a text that does not parse throws before the missing
  \<^verbatim>\<open>push\<close> does. Either exception ends in the same response. A text on which the
  parser answers \<open>Unsupported\<close> is outside the model; the statements below about a
  failing Load are about \<open>SyntaxError\<close> only.
\<close>

definition push_step :: "(string \<times> NodeCall list) list \<Rightarrow> Step \<Rightarrow> error + (string \<times> NodeCall list) list" where
  "push_step obj s =
     (let obj1 = (if has_own obj (nodeName s) \<or> nodeName s \<in> set Object_prototype_keys then obj
                  else obj @ [(nodeName s, [])])
      in case parse_or_empty (inputJson s) of
           Inl e \<Rightarrow> Inl (ParseFailure e)
         | Inr i \<Rightarrow>
             (case parse_or_empty (outputJson s) of
                Inl e \<Rightarrow> Inl (ParseFailure e)
              | Inr out \<Rightarrow>
                  if has_own obj1 (nodeName s)
                  then Inr (push_to (nodeName s)
                              \<lparr>stepIndex = step_stepIndex s, input = Some i, output = Some out\<rparr> obj1)
                  else Inl TypeError))"

fun collect_nodes :: "(string \<times> NodeCall list) list \<Rightarrow> Step list \<Rightarrow> error + (string \<times> NodeCall list) list" where
  "collect_nodes obj [] = Inr obj"
| "collect_nodes obj (s # steps) =
     (case push_step obj s of
        Inl e \<Rightarrow> Inl e
      | Inr obj' \<Rightarrow> collect_nodes obj' steps)"

text \<open>The projection of an Edge row in \<^verbatim>\<open>edges.map(...)\<close>.\<close>

definition edge_entry :: "Edge \<Rightarrow> EdgeCall" where
  "edge_entry e =
     \<lparr>source = sourceNode e,
      target = targetNode e,
      conditionKey = (case edge_conditionKey e of
                        Some k \<Rightarrow> if k = [] then Undefined else Val k
                      | None \<Rightarrow> Undefined),
      used_count = (case usedCount e of Some n \<Rightarrow> Val n | None \<Rightarrow> Null)\<rparr>"

definition GET_load :: "store \<Rightarrow> string option \<Rightarrow> LoadBody response" where
  "GET_load st q =
     (case q of
        None \<Rightarrow> Failed ''graphId missing'' 400
      | Some g \<Rightarrow>
          if g = [] then Failed ''graphId missing'' 400
          else
            (let steps = step_findMany g st;
                 edgeRows = edge_findMany g st
             in case collect_nodes [] steps of
                  Inl err \<Rightarrow> Failed ''Failed'' 500
                | Inr nodesObj \<Rightarrow>
                    Json \<lparr>resp_nodes = nodesObj, resp_edges = map edge_entry edgeRows\<rparr>))"

section \<open>Definitions used in the statements and proofs\<close>

text \<open>Recursion depth that parsing the text of a value needs.\<close>

fun fuel :: "json \<Rightarrow> nat"
  and fuel_elements :: "json list \<Rightarrow> nat"
  and fuel_members :: "(string \<times> json) list \<Rightarrow> nat" where
  "fuel JNull = 1"
| "fuel (JBool b) = 1"
| "fuel (JNum i) = 1"
| "fuel (JStr s) = 1"
| "fuel (JArr vs) = Suc (fuel_elements vs)"
| "fuel (JObj ms) = Suc (fuel_members ms)"
| "fuel_elements [] = 0"
| "fuel_elements [v] = fuel v"
| "fuel_elements (v # w # vs) = fuel v + Suc (fuel_elements (w # vs))"
| "fuel_members [] = 0"
| "fuel_members [(k, v)] = fuel v"
| "fuel_members ((k, v) # m # ms) = fuel v + Suc (fuel_members (m # ms))"

text \<open>What may follow a value inside a text: nothing, or a separator or closing bracket.\<close>

definition delim :: "string \<Rightarrow> bool" where
  "delim r \<longleftrightarrow> r = [] \<or> hd r = CHR '','' \<or> hd r = CHR '']'' \<or> hd r = CHR ''}''"

definition starts_value :: "string \<Rightarrow> bool" where
  "starts_value s \<longleftrightarrow> s \<noteq> [] \<and> \<not> is_ws (hd s) \<and> hd s \<noteq> CHR '']'' \<and> hd s \<noteq> CHR ''}''"

text \<open>
  The entry that Load returns for a call, and for an edge, that Ingest was given: the
  submitted entry with the defaults of the two handlers applied.
\<close>

definition stored_call :: "NodeCall \<Rightarrow> NodeCall" where
  "stored_call c =
     \<lparr>stepIndex = stepIndex c,
      input = Some (or_empty_object (input c)),
      output = Some (or_empty_object (output c))\<rparr>"

definition stored_edge :: "EdgeCall \<Rightarrow> EdgeCall" where
  "stored_edge e =
     \<lparr>source = source e,
      target = target e,
      conditionKey = (case conditionKey e of
                        Val k \<Rightarrow> if k = [] then Undefined else Val k
                      | _ \<Rightarrow> Undefined),
      used_count = Val (or_zero (used_count e))\<rparr>"

text \<open>The rows that the loops of Ingest write, with keys counted from \<open>i\<close>.\<close>

fun new_steps :: "string \<Rightarrow> string \<Rightarrow> nat \<Rightarrow> NodeCall list \<Rightarrow> Step list" where
  "new_steps g n i [] = []"
| "new_steps g n i (c # cs) =
     \<lparr>step_id = i, step_graphId = g, nodeName = n, step_stepIndex = stepIndex c,
      inputJson = JSON_stringify (or_empty_object (input c)),
      outputJson = JSON_stringify (or_empty_object (output c))\<rparr> # new_steps g n (Suc i) cs"

fun new_node_steps :: "string \<Rightarrow> nat \<Rightarrow> (string \<times> NodeCall list) list \<Rightarrow> Step list" where
  "new_node_steps g i [] = []"
| "new_node_steps g i ((n, cs) # ns) = new_steps g n i cs @ new_node_steps g (i + length cs) ns"

fun new_edges :: "string \<Rightarrow> nat \<Rightarrow> EdgeCall list \<Rightarrow> Edge list" where
  "new_edges g i [] = []"
| "new_edges g i (e # es) =
     \<lparr>edge_id = i, edge_graphId = g, sourceNode = source e, targetNode = target e,
      edge_conditionKey = nullable (conditionKey e),
      usedCount = Some (or_zero (used_count e))\<rparr> # new_edges g (Suc i) es"

definition count_calls :: "(string \<times> NodeCall list) list \<Rightarrow> nat" where
  "count_calls ns = sum_list (map (\<lambda>(n, cs). length cs) ns)"

text \<open>The node entries of a snapshot that have at least one call.\<close>

definition called_nodes :: "(string \<times> NodeCall list) list \<Rightarrow> (string \<times> NodeCall list) list" where
  "called_nodes ns = filter (\<lambda>(n, cs). cs \<noteq> []) ns"

text \<open>A row without its store-assigned key.\<close>

definition step_data :: "Step \<Rightarrow> string \<times> string \<times> int \<times> string \<times> string" where
  "step_data r = (step_graphId r, nodeName r, step_stepIndex r, inputJson r, outputJson r)"

definition edge_data :: "Edge \<Rightarrow> string \<times> string \<times> string \<times> string option \<times> int option" where
  "edge_data r = (edge_graphId r, sourceNode r, targetNode r, edge_conditionKey r, usedCount r)"

text \<open>The entry that Load builds from a Step row, when both of its texts parse.\<close>

definition row_call :: "Step \<Rightarrow> NodeCall option" where
  "row_call r =
     (case parse_or_empty (inputJson r) of
        Inl e \<Rightarrow> None
      | Inr i \<Rightarrow>
          (case parse_or_empty (outputJson r) of
             Inl e \<Rightarrow> None
           | Inr out \<Rightarrow> Some \<lparr>stepIndex = step_stepIndex r, input = Some i, output = Some out\<rparr>))"

text \<open>The entries of the rows of one node, in row order.\<close>

definition grouped :: "Step list \<Rightarrow> string \<Rightarrow> NodeCall list" where
  "grouped rows k = List.map_filter row_call (filter (\<lambda>r. nodeName r = k) rows)"

text \<open>The calls that a snapshot lists under one node name.\<close>

definition calls_of :: "(string \<times> NodeCall list) list \<Rightarrow> string \<Rightarrow> NodeCall list" where
  "calls_of ns k = concat (map snd (filter (\<lambda>(n, cs). n = k) ns))"

section \<open>Example data\<close>

text \<open>
  A store with one graph \<open>g1\<close>, which already holds a row of each kind, and a second
  graph \<open>g2\<close> with a row of its own.
\<close>

definition ex_store :: store where
  "ex_store =
     \<lparr>graph_tbl = [\<lparr>graph_id = ''g1'', graph_name = ''demo'', createdAt = 1\<rparr>,
                   \<lparr>graph_id = ''g2'', graph_name = ''other'', createdAt = 2\<rparr>],
      step_tbl = [\<lparr>step_id = 1, step_graphId = ''g1'', nodeName = ''old'', step_stepIndex = 0,
                    inputJson = ''{}'', outputJson = ''{}''\<rparr>,
                  \<lparr>step_id = 2, step_graphId = ''g2'', nodeName = ''x'', step_stepIndex = 0,
                    inputJson = ''[1,2]'', outputJson = []\<rparr>],
      edge_tbl = [\<lparr>edge_id = 1, edge_graphId = ''g1'', sourceNode = ''old'', targetNode = ''gone'',
                    edge_conditionKey = Some ''k'', usedCount = Some 3\<rparr>],
      step_seq = 3, edge_seq = 2\<rparr>"

text \<open>The example of the specification.\<close>

definition ex_body :: IngestBody where
  "ex_body =
     \<lparr>graphId = Val ''g1'',
      nodes = Val [(''start'', [\<lparr>stepIndex = 0, input = Some (JObj []),
                                 output = Some (JObj [(''msg'', JStr ''hi'')])\<rparr>])],
      edges = Val [\<lparr>source = ''start'', target = ''end'', conditionKey = Undefined,
                    used_count = Val 1\<rparr>]\<rparr>"

text \<open>
  A snapshot whose calls are not in step order, with a payload \<^verbatim>\<open>0\<close>, an absent
  payload, and a node without calls.
\<close>

definition unsorted_body :: IngestBody where
  "unsorted_body =
     \<lparr>graphId = Val ''g1'',
      nodes = Val [(''a'', [\<lparr>stepIndex = 1, input = Some (JNum 0), output = None\<rparr>,
                           \<lparr>stepIndex = 0, input = Some (JNum 5), output = Some (JStr ''done'')\<rparr>]),
                   (''b'', [])],
      edges = Undefined\<rparr>"


text \<open>A store whose Step row holds a text that is not JSON.\<close>

definition malformed_store :: store where
  "malformed_store =
     \<lparr>graph_tbl = [\<lparr>graph_id = ''g1'', graph_name = ''demo'', createdAt = 1\<rparr>],
      step_tbl = [\<lparr>step_id = 1, step_graphId = ''g1'', nodeName = ''a'', step_stepIndex = 0,
                    inputJson = ''{'', outputJson = ''{}''\<rparr>],
      edge_tbl = [], step_seq = 2, edge_seq = 1\<rparr>"

text \<open>A store whose Edge row has NULL in \<open>usedCount\<close>, and an endpoint without Step rows.\<close>

definition null_count_store :: store where
  "null_count_store =
     \<lparr>graph_tbl = [\<lparr>graph_id = ''g1'', graph_name = ''demo'', createdAt = 1\<rparr>],
      step_tbl = [\<lparr>step_id = 1, step_graphId = ''g1'', nodeName = ''a'', step_stepIndex = 0,
                    inputJson = [], outputJson = ''{}''\<rparr>],
      edge_tbl = [\<lparr>edge_id = 1, edge_graphId = ''g1'', sourceNode = ''a'', targetNode = ''b'',
                    edge_conditionKey = None, usedCount = None\<rparr>],
      step_seq = 2, edge_seq = 2\<rparr>"






section \<open>The codec round trip\<close>


lemma digit_char_cases:
  "d < 16 \<Longrightarrow> d = 0 \<or> d = 1 \<or> d = 2 \<or> d = 3 \<or> d = 4 \<or> d = 5 \<or> d = 6 \<or> d = 7 \<or> d = 8
     \<or> d = 9 \<or> d = 10 \<or> d = 11 \<or> d = 12 \<or> d = 13 \<or> d = 14 \<or> d = (15::nat)"
  by arith

lemma hex_val_digit_char: "d < 16 \<Longrightarrow> hex_val (digit_char d) = Some d"
  using digit_char_cases [of d] by (auto simp: hex_val_def digit_char_def)

lemma is_digit_digit_char: "d < 10 \<Longrightarrow> is_digit (digit_char d)"
  using digit_char_cases [of d] by (auto simp: is_digit_def digit_char_def)

lemma of_char_digit_char: "d < 10 \<Longrightarrow> (of_char (digit_char d) :: nat) = 48 + d"
  using digit_char_cases [of d] by (auto simp: digit_char_def)

lemma digit_char_zero: "d < 10 \<Longrightarrow> digit_char d = CHR ''0'' \<longleftrightarrow> d = 0"
  using digit_char_cases [of d] by (auto simp: digit_char_def)

lemma digits_not_Nil: "digits n \<noteq> []"
  by (subst digits.simps) simp

lemma digits_all_digit: "\<forall>c \<in> set (digits n). is_digit c"
proof (induction n rule: digits.induct)
  case (1 n)
  show ?case
  proof (cases "n < 10")
    case True
    then show ?thesis by (subst digits.simps) (simp add: is_digit_digit_char)
  next
    case False
    with 1 show ?thesis by (subst digits.simps) (simp add: is_digit_digit_char)
  qed
qed

lemma digits_val_append:
  "digits_val (ds @ [c]) = 10 * digits_val ds + (of_char c - 48)"
  by (simp add: digits_val_def)

lemma digits_val_digits: "digits_val (digits n) = n"
proof (induction n rule: digits.induct)
  case (1 n)
  show ?case
  proof (cases "n < 10")
    case True
    then show ?thesis
      by (subst digits.simps) (simp add: digits_val_def of_char_digit_char)
  next
    case False
    with 1 show ?thesis
      by (subst digits.simps) (simp add: digits_val_append of_char_digit_char)
  qed
qed

lemma digits_leading_zero: "hd (digits n) = CHR ''0'' \<Longrightarrow> n = 0"
proof (induction n rule: digits.induct)
  case (1 n)
  show ?case
  proof (cases "n < 10")
    case True
    with 1(2) show ?thesis
      by (subst (asm) digits.simps) (simp add: digit_char_zero)
  next
    case False
    with 1(2) have "hd (digits (n div 10)) = CHR ''0''"
      by (subst (asm) digits.simps) (simp add: digits_not_Nil)
    with 1(1) False have "n div 10 = 0" by simp
    with False show ?thesis by simp
  qed
qed

lemma digits_zero: "digits 0 = ''0''"
  by (subst digits.simps) (simp add: digit_char_def)

lemma delim_not_digit: "delim r \<Longrightarrow> r = [] \<or> \<not> is_digit (hd r)"
  by (auto simp: delim_def is_digit_def)

lemma takeWhile_digits: "delim r \<Longrightarrow> takeWhile is_digit (digits n @ r) = digits n"
  using digits_all_digit [of n] delim_not_digit [of r]
  by (cases r) (auto simp: takeWhile_append2 takeWhile_eq_all_conv)

lemma dropWhile_digits: "delim r \<Longrightarrow> dropWhile is_digit (digits n @ r) = r"
  using digits_all_digit [of n] delim_not_digit [of r]
  by (cases r) (auto simp: dropWhile_append2 dropWhile_eq_Nil_conv)

lemma hd_digits_not_minus: "hd (digits n) \<noteq> CHR ''-''"
  using digits_all_digit [of n] digits_not_Nil [of n]
  by (cases "digits n") (auto simp: is_digit_def)

lemma parse_number_show_int:
  assumes "delim r"
  shows "parse_number (show_int i @ r) = Inr (JNum i, r)"
proof (cases "i < 0")
  case True
  have z: "hd (digits (nat (- i))) = CHR ''0'' \<Longrightarrow> False"
    using digits_leading_zero [of "nat (- i)"] True by simp
  have d: "\<not> (hd r \<in> set ''.eE'' \<and> r \<noteq> [])"
    using assms by (auto simp: delim_def)
  show ?thesis
    using True assms z d
    by (auto simp: parse_number_def show_int_def Let_def takeWhile_digits dropWhile_digits
        digits_not_Nil digits_val_digits)
next
  case False
  have z: "hd (digits (nat i)) = CHR ''0'' \<Longrightarrow> tl (digits (nat i)) = []"
    using digits_leading_zero [of "nat i"] by (simp add: digits_zero)
  have d: "\<not> (hd r \<in> set ''.eE'' \<and> r \<noteq> [])"
    using assms by (auto simp: delim_def)
  have m: "hd (digits (nat i) @ r) \<noteq> CHR ''-''"
    using hd_digits_not_minus [of "nat i"] by (simp add: digits_not_Nil)
  show ?thesis
    using False assms z d m
    by (auto simp: parse_number_def show_int_def Let_def takeWhile_digits dropWhile_digits
        digits_not_Nil digits_val_digits)
qed




lemma cons_char_Inr [simp]: "cons_char c (Inr (s, r)) = Inr (c # s, r)"
  by (simp add: cons_char_def)

lemma hex4_escape:
  assumes "(of_char c :: nat) < 32"
  shows "hex4 (CHR ''0'') (CHR ''0'') (digit_char (of_char c div 16)) (digit_char (of_char c mod 16))
         = Some (of_char c)"
proof -
  have z: "hex_val (CHR ''0'') = Some 0" by (simp add: hex_val_def)
  have a: "hex_val (digit_char (of_char c div 16)) = Some (of_char c div 16)"
    using assms by (intro hex_val_digit_char) simp
  have b: "hex_val (digit_char (of_char c mod 16)) = Some (of_char c mod 16)"
    by (intro hex_val_digit_char) simp
  show ?thesis by (simp add: hex4_def z a b)
qed

lemma parse_chars_escape:
  "parse_chars (escape_char c @ rest) = cons_char c (parse_chars rest)"
proof (cases "(of_char c :: nat) < 32")
  case True
  then have q: "c \<noteq> CHR 0x22" "c \<noteq> CHR 0x5C" by auto
  show ?thesis
  proof (cases "c = CHR 0x08 \<or> c = CHR 0x0C \<or> c = CHR 0x0A \<or> c = CHR 0x0D \<or> c = CHR 0x09")
    case True
    then show ?thesis by (auto simp: escape_char_def unescape_def)
  next
    case False
    with \<open>(of_char c :: nat) < 32\<close> q show ?thesis
      by (simp add: escape_char_def hex4_escape)
  qed
next
  case False
  then show ?thesis
    by (auto simp: escape_char_def unescape_def)
qed

lemma parse_chars_escaped:
  "parse_chars (concat (map escape_char s) @ CHR 0x22 # r) = Inr (s, r)"
  by (induction s) (simp_all add: parse_chars_escape)

lemma parse_chars_quote: "parse_chars (tl (quote s) @ r) = Inr (s, r)"
  by (simp add: quote_def parse_chars_escaped)




lemma fuel_pos: "0 < fuel v"
  by (cases v) simp_all

lemma show_int_start: "\<exists>c cs. show_int i = c # cs \<and> (c = CHR ''-'' \<or> is_digit c)"
proof (cases "i < 0")
  case True
  then show ?thesis by (simp add: show_int_def)
next
  case False
  obtain c cs where "digits (nat i) = c # cs"
    using digits_not_Nil [of "nat i"] by (cases "digits (nat i)") auto
  moreover from this have "is_digit c"
    using digits_all_digit [of "nat i"] by simp
  ultimately show ?thesis using False by (simp add: show_int_def)
qed

lemma number_start:
  assumes "c = CHR ''-'' \<or> is_digit c"
  shows "\<not> is_ws c" "c \<noteq> CHR ''{''" "c \<noteq> CHR ''[''" "c \<noteq> CHR 0x22"
    "c \<noteq> CHR ''t''" "c \<noteq> CHR ''f''" "c \<noteq> CHR ''n''"
  using assms by (auto simp: is_digit_def is_ws_def)

lemma parse_value_number:
  "c = CHR ''-'' \<or> is_digit c \<Longrightarrow> parse_value (Suc n) (c # s) = parse_number (c # s)"
  by (simp add: number_start)

lemma starts_value_quote: "starts_value (quote s @ r)"
  by (simp add: starts_value_def quote_def is_ws_def)

lemma starts_value_stringify: "starts_value (JSON_stringify v @ r)"
proof (cases v)
  case (JNum i)
  obtain c cs where "show_int i = c # cs" "c = CHR ''-'' \<or> is_digit c"
    using show_int_start by blast
  then show ?thesis using JNum by (auto simp: starts_value_def is_ws_def is_digit_def)
next
  case (JStr s)
  then show ?thesis using starts_value_quote [of s r] by simp
qed (simp_all add: starts_value_def is_ws_def)

lemma starts_value_elements: "vs \<noteq> [] \<Longrightarrow> starts_value (stringify_elements vs @ r)"
  using starts_value_stringify
  by (cases vs rule: stringify_elements.cases) (simp_all del: JSON_stringify.simps)

lemma starts_value_members: "ms \<noteq> [] \<Longrightarrow> starts_value (stringify_members ms @ r)"
  using starts_value_quote
  by (cases ms rule: stringify_members.cases) (simp_all)

lemma starts_valueD:
  "starts_value s \<Longrightarrow> \<exists>c cs. s = c # cs \<and> skip_ws s = c # cs \<and> c \<noteq> CHR '']'' \<and> c \<noteq> CHR ''}''"
  by (cases s) (simp_all add: starts_value_def)

lemma delim_simps [simp]:
  "delim []" "delim (CHR '','' # r)" "delim (CHR '']'' # r)" "delim (CHR ''}'' # r)"
  by (simp_all add: delim_def)

lemma skip_ws_punct [simp]:
  "skip_ws (CHR '','' # r) = CHR '','' # r"
  "skip_ws (CHR '']'' # r) = CHR '']'' # r"
  "skip_ws (CHR ''}'' # r) = CHR ''}'' # r"
  "skip_ws (CHR '':'' # r) = CHR '':'' # r"
  "skip_ws (CHR 0x22 # r) = CHR 0x22 # r"
  by (simp_all add: is_ws_def)

lemma parse_roundtrip:
  "(\<forall>n r. fuel v \<le> n \<longrightarrow> delim r \<longrightarrow> parse_value n (JSON_stringify v @ r) = Inr (v, r))"
  "(vs \<noteq> [] \<longrightarrow>
     (\<forall>n r. fuel_elements vs \<le> n \<longrightarrow> parse_elements n (stringify_elements vs @ r) = Inr (vs, r)))"
  "(ms \<noteq> [] \<longrightarrow>
     (\<forall>n r. fuel_members ms \<le> n \<longrightarrow> parse_members n (stringify_members ms @ r) = Inr (ms, r)))"
proof (induction v and vs and ms rule: JSON_stringify_stringify_elements_stringify_members.induct)
  case 1
  show ?case
  proof (intro allI impI)
    fix n r assume "fuel JNull \<le> n" "delim r"
    then obtain m where "n = Suc m" by (cases n) auto
    then show "parse_value n (JSON_stringify JNull @ r) = Inr (JNull, r)"
      by (simp add: is_ws_def parse_literal_def)
  qed
next
  case (2 b)
  show ?case
  proof (intro allI impI)
    fix n r assume "fuel (JBool b) \<le> n" "delim r"
    then obtain m where "n = Suc m" by (cases n) auto
    then show "parse_value n (JSON_stringify (JBool b) @ r) = Inr (JBool b, r)"
      by (simp add: is_ws_def parse_literal_def)
  qed
next
  case (3 i)
  show ?case
  proof (intro allI impI)
    fix n r assume "fuel (JNum i) \<le> n" and d: "delim r"
    then obtain m where n: "n = Suc m" by (cases n) auto
    obtain c cs where s: "show_int i = c # cs" "c = CHR ''-'' \<or> is_digit c"
      using show_int_start by blast
    have "parse_value (Suc m) (c # cs @ r) = parse_number (c # cs @ r)"
      using s(2) by (rule parse_value_number)
    with parse_number_show_int [OF d, of i] s(1) n
    show "parse_value n (JSON_stringify (JNum i) @ r) = Inr (JNum i, r)"
      by simp
  qed
next
  case (4 s)
  show ?case
  proof (intro allI impI)
    fix n r assume "fuel (JStr s) \<le> n" "delim r"
    then obtain m where "n = Suc m" by (cases n) auto
    moreover have "parse_chars (concat (map escape_char s) @ CHR 0x22 # r) = Inr (s, r)"
      by (rule parse_chars_escaped)
    ultimately show "parse_value n (JSON_stringify (JStr s) @ r) = Inr (JStr s, r)"
      by (simp add: quote_def is_ws_def)
  qed
next
  case (5 vs)
  show ?case
  proof (intro allI impI)
    fix n r assume f: "fuel (JArr vs) \<le> n" and "delim r"
    then obtain m where n: "n = Suc m" and m: "fuel_elements vs \<le> m" by (cases n) auto
    show "parse_value n (JSON_stringify (JArr vs) @ r) = Inr (JArr vs, r)"
    proof (cases "vs = []")
      case True
      then show ?thesis using n by (simp add: is_ws_def)
    next
      case False
      obtain c cs where c: "stringify_elements vs @ r = c # cs" "skip_ws (stringify_elements vs @ r) = c # cs"
        "c \<noteq> CHR '']''"
        using starts_valueD [OF starts_value_elements [OF False, of r]] by blast
      from 5 False m have "parse_elements m (stringify_elements vs @ r) = Inr (vs, r)" by blast
      with c n show ?thesis by (simp add: is_ws_def)
    qed
  qed
next
  case (6 ms)
  show ?case
  proof (intro allI impI)
    fix n r assume f: "fuel (JObj ms) \<le> n" and "delim r"
    then obtain m where n: "n = Suc m" and m: "fuel_members ms \<le> m" by (cases n) auto
    show "parse_value n (JSON_stringify (JObj ms) @ r) = Inr (JObj ms, r)"
    proof (cases "ms = []")
      case True
      then show ?thesis using n by (simp add: is_ws_def)
    next
      case False
      obtain c cs where c: "stringify_members ms @ r = c # cs" "skip_ws (stringify_members ms @ r) = c # cs"
        "c \<noteq> CHR ''}''"
        using starts_valueD [OF starts_value_members [OF False, of r]] by blast
      from 6 False m have "parse_members m (stringify_members ms @ r) = Inr (ms, r)" by blast
      with c n show ?thesis by (simp add: is_ws_def)
    qed
  qed
next
  case 7
  show ?case by simp
next
  case (8 v)
  show ?case
  proof (intro allI impI)
    fix n r assume "fuel_elements [v] \<le> n"
    then obtain m where n: "n = Suc m" and m: "fuel v \<le> Suc m"
      using fuel_pos [of v] by (cases n) auto
    from 8 m have "parse_value (Suc m) (JSON_stringify v @ CHR '']'' # r) = Inr (v, CHR '']'' # r)"
      by (simp del: parse_value.simps)
    with n show "parse_elements n (stringify_elements [v] @ r) = Inr ([v], r)"
      by (simp add: is_ws_def del: parse_value.simps)
  qed
next
  case (9 v w vs)
  show ?case
  proof (intro allI impI)
    fix n r assume "fuel_elements (v # w # vs) \<le> n"
    then obtain m where n: "n = Suc m" and m: "fuel v \<le> Suc m" "fuel_elements (w # vs) \<le> m"
      by (cases n) auto
    from 9(1) m have "parse_value (Suc m) (JSON_stringify v @ CHR '','' # stringify_elements (w # vs) @ r)
        = Inr (v, CHR '','' # stringify_elements (w # vs) @ r)"
      by (simp del: parse_value.simps)
    moreover from 9(2) m have "parse_elements m (stringify_elements (w # vs) @ r) = Inr (w # vs, r)"
      by blast
    ultimately show "parse_elements n (stringify_elements (v # w # vs) @ r) = Inr (v # w # vs, r)"
      using n by (simp add: is_ws_def del: parse_value.simps)
  qed
next
  case 10
  show ?case by simp
next
  case (11 k v)
  show ?case
  proof (intro allI impI)
    fix n r assume "fuel_members [(k, v)] \<le> n"
    then obtain m where n: "n = Suc m" and m: "fuel v \<le> Suc m"
      using fuel_pos [of v] by (cases n) auto
    from 11 m have "parse_value (Suc m) (JSON_stringify v @ CHR ''}'' # r) = Inr (v, CHR ''}'' # r)"
      by (simp del: parse_value.simps)
    moreover have "parse_chars (concat (map escape_char k) @ CHR 0x22 # CHR '':'' # JSON_stringify v @ CHR ''}'' # r)
        = Inr (k, CHR '':'' # JSON_stringify v @ CHR ''}'' # r)"
      by (rule parse_chars_escaped)
    ultimately show "parse_members n (stringify_members [(k, v)] @ r) = Inr ([(k, v)], r)"
      using n by (simp add: quote_def is_ws_def del: parse_value.simps)
  qed
next
  case (12 k v m ms)
  show ?case
  proof (intro allI impI)
    fix n r assume "fuel_members ((k, v) # m # ms) \<le> n"
    then obtain j where n: "n = Suc j" and j: "fuel v \<le> Suc j" "fuel_members (m # ms) \<le> j"
      by (cases n) auto
    let ?rest = "CHR '','' # stringify_members (m # ms) @ r"
    from 12(1) j have "parse_value (Suc j) (JSON_stringify v @ ?rest) = Inr (v, ?rest)"
      by (simp del: parse_value.simps)
    moreover from 12(2) j have "parse_members j (stringify_members (m # ms) @ r) = Inr (m # ms, r)"
      by blast
    moreover have "parse_chars (concat (map escape_char k) @ CHR 0x22 # CHR '':'' # JSON_stringify v @ ?rest)
        = Inr (k, CHR '':'' # JSON_stringify v @ ?rest)"
      by (rule parse_chars_escaped)
    ultimately show "parse_members n (stringify_members ((k, v) # m # ms) @ r) = Inr ((k, v) # m # ms, r)"
      using n by (simp add: quote_def is_ws_def del: parse_value.simps)
  qed
qed

lemma length_digits_pos: "0 < length (digits n)"
  using digits_not_Nil by simp

lemma fuel_le_length:
  "fuel v \<le> length (JSON_stringify v)"
  "fuel_elements vs \<le> length (stringify_elements vs)"
  "fuel_members ms \<le> length (stringify_members ms)"
proof (induction v and vs and ms rule: JSON_stringify_stringify_elements_stringify_members.induct)
  case (3 i)
  show ?case using length_digits_pos by (simp add: show_int_def Suc_leI)
qed (simp_all add: quote_def)

lemma JSON_roundtrip: "JSON_parse (JSON_stringify v) = Inr v"
proof -
  have "fuel v \<le> Suc (length (JSON_stringify v))"
    using fuel_le_length(1) [of v] by simp
  then have "parse_value (Suc (length (JSON_stringify v))) (JSON_stringify v @ []) = Inr (v, [])"
    by (rule parse_roundtrip(1) [rule_format, OF _ delim_simps(1)])
  then show ?thesis by (simp add: JSON_parse_def del: parse_value.simps)
qed

lemma JSON_stringify_not_Nil: "JSON_stringify v \<noteq> []"
  using starts_value_stringify [of v "[]"] by (simp add: starts_value_def)


section \<open>The recursion bound of the parser is never reached\<close>

lemma skip_ws_length: "length (skip_ws s) \<le> length s"
  by (induction s) auto

lemma skip_ws_Cons_length: "skip_ws s = c # cs \<Longrightarrow> length cs < length s"
  using skip_ws_length [of s] by simp

lemma cons_char_InrD:
  "cons_char c x = Inr (s, r) \<Longrightarrow> \<exists>s'. x = Inr (s', r)"
  by (auto simp: cons_char_def split: sum.splits)

lemma cons_char_not_fuel: "cons_char c x = Inl OutOfFuel \<Longrightarrow> x = Inl OutOfFuel"
  by (auto simp: cons_char_def split: sum.splits)

lemma parse_chars_length: "parse_chars s = Inr (str, r) \<Longrightarrow> length r < length s"
proof (induction "length s" arbitrary: s str r rule: less_induct)
  case less
  have IH: "\<And>t str' r'. parse_chars t = Inr (str', r') \<Longrightarrow> length t < length s
      \<Longrightarrow> length r' < length s"
    using less.hyps by fastforce
  show ?case
  proof (cases s)
    case Nil
    with less.prems show ?thesis by simp
  next
    case (Cons c cs)
    with less.prems show ?thesis
      apply (auto split: if_splits list.splits option.splits dest!: cons_char_InrD)
        apply (drule IH, simp add: Cons, simp add: Cons)+
      done
  qed
qed

lemma parse_chars_not_fuel: "parse_chars s \<noteq> Inl OutOfFuel"
proof (induction "length s" arbitrary: s rule: less_induct)
  case less
  have IH: "\<And>t. parse_chars t = Inl OutOfFuel \<Longrightarrow> length t < length s \<Longrightarrow> False"
    using less.hyps by blast
  show ?case
  proof (cases s)
    case Nil
    then show ?thesis by simp
  next
    case (Cons c cs)
    show ?thesis
    proof
      assume "parse_chars s = Inl OutOfFuel"
      with Cons show False
        apply (auto split: if_splits list.splits option.splits dest!: cons_char_not_fuel)
          apply (drule IH, simp add: Cons, simp)+
        done
    qed
  qed
qed

lemma parse_number_length:
  assumes "parse_number s = Inr (v, r)"
  shows "length r \<le> length s"
proof -
  let ?s1 = "if s \<noteq> [] \<and> hd s = CHR ''-'' then tl s else s"
  from assms have "r = dropWhile is_digit ?s1"
    by (cases "s \<noteq> [] \<and> hd s = CHR ''-''")
      (auto simp: parse_number_def Let_def split: if_splits)
  moreover have "length (dropWhile is_digit ?s1) \<le> length ?s1"
    by (rule length_dropWhile_le)
  moreover have "length ?s1 \<le> length s" by simp
  ultimately show ?thesis by simp
qed

lemma parse_number_not_fuel: "parse_number s \<noteq> Inl OutOfFuel"
  by (simp add: parse_number_def Let_def)

lemma parse_literal_length: "parse_literal lit v s = Inr (w, r) \<Longrightarrow> length r \<le> length s"
  by (auto simp: parse_literal_def split: if_splits)

lemma parse_literal_not_fuel: "parse_literal lit v s \<noteq> Inl OutOfFuel"
  by (simp add: parse_literal_def)


lemma parse_consumes:
  "(parse_value n s = Inr (v, r) \<longrightarrow> length r \<le> length s)"
  "(parse_elements n s = Inr (vs, r) \<longrightarrow> length r \<le> length s)"
  "(parse_members n s = Inr (ms, r) \<longrightarrow> length r \<le> length s)"
proof (induction n s and n s and n s arbitrary: v r and vs r and ms r
    rule: parse_value_parse_elements_parse_members.induct)
  case (1 s)
  show ?case by simp
next
  case (2 n s)
  show ?case
  proof
    assume p: "parse_value (Suc n) s = Inr (v, r)"
    show "length r \<le> length s"
    proof (cases "skip_ws s")
      case Nil
      with p show ?thesis by simp
    next
      case (Cons c cs)
      note cs = skip_ws_Cons_length [OF Cons]
      show ?thesis
      proof (cases "c = CHR ''{'' \<or> c = CHR ''[''")
        case True
        show ?thesis
        proof (cases "skip_ws cs")
          case Nil
          with p Cons True show ?thesis by auto
        next
          case inner: (Cons d ds)
          note ds = skip_ws_Cons_length [OF inner]
          have dl: "length (d # ds) \<le> length cs"
            using skip_ws_length [of cs] inner by simp
          from True show ?thesis
          proof
            assume c: "c = CHR ''{''"
            show ?thesis
            proof (cases "d = CHR ''}''")
              case True
              with p Cons c inner cs ds show ?thesis by auto
            next
              case False
              with p Cons c inner obtain ms where "parse_members n (d # ds) = Inr (ms, r)"
                by (auto split: sum.splits)
              with "2.IH"(1) [OF Cons c inner False] have "length r \<le> length (d # ds)"
                by blast
              with dl cs show ?thesis by simp
            qed
          next
            assume c: "c = CHR ''[''"
            then have nc: "c \<noteq> CHR ''{''" by simp
            show ?thesis
            proof (cases "d = CHR '']''")
              case True
              with p Cons c inner cs ds show ?thesis by auto
            next
              case False
              with p Cons c inner obtain vs where "parse_elements n (d # ds) = Inr (vs, r)"
                by (auto split: sum.splits)
              with "2.IH"(2) [OF Cons nc c inner False] have "length r \<le> length (d # ds)"
                by blast
              with dl cs show ?thesis by simp
            qed
          qed
        qed
      next
        case False
        have sl: "length (c # cs) \<le> length s"
          using skip_ws_length [of s] Cons by simp
        from p Cons False have "length r \<le> length (c # cs)"
          by (auto split: if_splits sum.splits
              dest: parse_chars_length parse_literal_length parse_number_length)
        with sl show ?thesis by simp
      qed
    qed
  qed
next
  case (3 s)
  show ?case by simp
next
  case (4 n s)
  show ?case
  proof
    assume p: "parse_elements (Suc n) s = Inr (vs, r)"
    then obtain v r1 where v: "parse_value (Suc n) s = Inr (v, r1)"
      by (auto split: sum.splits)
    with "4.IH"(1) have l1: "length r1 \<le> length s" by blast
    from p v obtain c cs where c: "skip_ws r1 = c # cs"
      by (auto split: list.splits)
    note cl = skip_ws_Cons_length [OF c]
    show "length r \<le> length s"
    proof (cases "c = CHR '',''")
      case True
      with p v c obtain vs' where e: "parse_elements n cs = Inr (vs', r)"
        by (auto split: sum.splits)
      have "length r \<le> length cs"
        using "4.IH"(2) [OF v refl c True] e by blast
      with cl l1 show ?thesis by simp
    next
      case False
      with p v c have "r = cs" by (auto split: if_splits)
      with cl l1 show ?thesis by simp
    qed
  qed
next
  case (5 s)
  show ?case by simp
next
  case (6 n s)
  show ?case
  proof
    assume p: "parse_members (Suc n) s = Inr (ms, r)"
    then obtain q qs where q: "skip_ws s = q # qs" by (auto split: list.splits)
    with p have qq: "\<not> q \<noteq> CHR 0x22" by (auto split: if_splits)
    from p q qq obtain k r1 where k: "parse_chars qs = Inr (k, r1)"
      by (auto split: sum.splits)
    from p q qq k obtain c cs where c: "skip_ws r1 = c # cs"
      by (auto split: list.splits)
    with p q qq k have cc: "\<not> c \<noteq> CHR '':''" by (auto split: if_splits)
    from p q qq k c cc obtain v r2 where v: "parse_value (Suc n) cs = Inr (v, r2)"
      by (auto split: sum.splits)
    from p q qq k c cc v obtain d ds where d: "skip_ws r2 = d # ds"
      by (auto split: list.splits)
    have l1: "length qs < length s" by (rule skip_ws_Cons_length [OF q])
    have l2: "length r1 < length qs" by (rule parse_chars_length [OF k])
    have l3: "length cs < length r1" by (rule skip_ws_Cons_length [OF c])
    have l4: "length r2 \<le> length cs"
      using "6.IH"(1) [OF q qq k refl c cc] v by blast
    have l5: "length ds < length r2" by (rule skip_ws_Cons_length [OF d])
    show "length r \<le> length s"
    proof (cases "d = CHR '',''")
      case True
      with p q qq k c cc v d obtain ms' where m: "parse_members n ds = Inr (ms', r)"
        by (auto split: sum.splits)
      have "length r \<le> length ds"
        using "6.IH"(2) [OF q qq k refl c cc v refl d True] m by blast
      with l1 l2 l3 l4 l5 show ?thesis by simp
    next
      case False
      with p q qq k c cc v d have "r = ds" by (auto split: if_splits)
      with l1 l2 l3 l4 l5 show ?thesis by simp
    qed
  qed
qed


lemma parse_fuel_enough:
  "(length s < n \<longrightarrow> parse_value n s \<noteq> Inl OutOfFuel)"
  "(length s < n \<longrightarrow> parse_elements n s \<noteq> Inl OutOfFuel)"
  "(length s < n \<longrightarrow> parse_members n s \<noteq> Inl OutOfFuel)"
proof (induction n s and n s and n s
    rule: parse_value_parse_elements_parse_members.induct)
  case (1 s)
  show ?case by simp
next
  case (2 n s)
  show ?case
  proof (intro impI notI)
    assume len: "length s < Suc n" and p: "parse_value (Suc n) s = Inl OutOfFuel"
    from p obtain c cs where Cons: "skip_ws s = c # cs" by (auto split: list.splits)
    note cs = skip_ws_Cons_length [OF Cons]
    show False
    proof (cases "c = CHR ''{'' \<or> c = CHR ''[''")
      case True
      from p Cons True obtain d ds where inner: "skip_ws cs = d # ds"
        by (auto split: list.splits)
      have dl: "length (d # ds) < n"
        using skip_ws_length [of cs] inner cs len by simp
      from True show ?thesis
      proof
        assume c: "c = CHR ''{''"
        from p Cons c inner have nd: "d \<noteq> CHR ''}''" by (auto split: if_splits)
        with p Cons c inner have "parse_members n (d # ds) = Inl OutOfFuel"
          by (auto split: sum.splits)
        with "2.IH"(1) [OF Cons c inner nd] dl show False by blast
      next
        assume c: "c = CHR ''[''"
        then have nc: "c \<noteq> CHR ''{''" by simp
        from p Cons c inner have nd: "d \<noteq> CHR '']''" by (auto split: if_splits)
        with p Cons c inner have "parse_elements n (d # ds) = Inl OutOfFuel"
          by (auto split: sum.splits)
        with "2.IH"(2) [OF Cons nc c inner nd] dl show False by blast
      qed
    next
      case False
      with p Cons show False
        by (auto split: if_splits sum.splits
            simp: parse_chars_not_fuel parse_literal_not_fuel parse_number_not_fuel)
    qed
  qed
next
  case (3 s)
  show ?case by simp
next
  case (4 n s)
  show ?case
  proof (intro impI notI)
    assume len: "length s < Suc n" and p: "parse_elements (Suc n) s = Inl OutOfFuel"
    from "4.IH"(1) len have nv: "parse_value (Suc n) s \<noteq> Inl OutOfFuel" by blast
    with p obtain v r1 where v: "parse_value (Suc n) s = Inr (v, r1)"
      by (auto split: sum.splits)
    from parse_consumes(1) [of "Suc n" s v r1] v have l1: "length r1 \<le> length s" by blast
    from p v obtain c cs where c: "skip_ws r1 = c # cs"
      by (auto split: list.splits)
    note cl = skip_ws_Cons_length [OF c]
    from p v c have cc: "c = CHR '',''" by (auto split: if_splits)
    with p v c have "parse_elements n cs = Inl OutOfFuel"
      by (auto split: sum.splits)
    moreover have "length cs < n" using cl l1 len by simp
    ultimately show False using "4.IH"(2) [OF v refl c cc] by blast
  qed
next
  case (5 s)
  show ?case by simp
next
  case (6 n s)
  show ?case
  proof (intro impI notI)
    assume len: "length s < Suc n" and p: "parse_members (Suc n) s = Inl OutOfFuel"
    then obtain q qs where q: "skip_ws s = q # qs" by (auto split: list.splits)
    with p have qq: "\<not> q \<noteq> CHR 0x22" by (auto split: if_splits)
    from p q qq obtain k r1 where k: "parse_chars qs = Inr (k, r1)"
      using parse_chars_not_fuel [of qs] by (auto split: sum.splits)
    from p q qq k obtain c cs where c: "skip_ws r1 = c # cs"
      by (auto split: list.splits)
    with p q qq k have cc: "\<not> c \<noteq> CHR '':''" by (auto split: if_splits)
    have l1: "length qs < length s" by (rule skip_ws_Cons_length [OF q])
    have l2: "length r1 < length qs" by (rule parse_chars_length [OF k])
    have l3: "length cs < length r1" by (rule skip_ws_Cons_length [OF c])
    have "length cs < Suc n" using l1 l2 l3 len by simp
    with "6.IH"(1) [OF q qq k refl c cc] have "parse_value (Suc n) cs \<noteq> Inl OutOfFuel"
      by blast
    with p q qq k c cc obtain v r2 where v: "parse_value (Suc n) cs = Inr (v, r2)"
      by (auto split: sum.splits)
    from p q qq k c cc v obtain d ds where d: "skip_ws r2 = d # ds"
      by (auto split: list.splits)
    have l4: "length r2 \<le> length cs"
      using parse_consumes(1) [of "Suc n" cs v r2] v by blast
    have l5: "length ds < length r2" by (rule skip_ws_Cons_length [OF d])
    from p q qq k c cc v d have dd: "d = CHR '',''" by (auto split: if_splits)
    with p q qq k c cc v d have "parse_members n ds = Inl OutOfFuel"
      by (auto split: sum.splits)
    moreover have "length ds < n" using l1 l2 l3 l4 l5 len by simp
    ultimately show False using "6.IH"(2) [OF q qq k refl c cc v refl d dd] by blast
  qed
qed

lemma JSON_parse_fuel_enough: "JSON_parse s \<noteq> Inl OutOfFuel"
  using parse_fuel_enough(1) [of s "Suc (length s)"]
  by (auto simp: JSON_parse_def split: sum.splits)

section \<open>The ingest loops\<close>

lemma graph_ids_deleteMany [simp]:
  "graph_ids (step_deleteMany g st) = graph_ids st"
  "graph_ids (edge_deleteMany g st) = graph_ids st"
  by (simp_all add: graph_ids_def step_deleteMany_def edge_deleteMany_def)

lemma insert_calls_ok:
  "g \<in> graph_ids st \<Longrightarrow>
   insert_calls g n cs st =
     (None, st\<lparr>step_tbl := step_tbl st @ new_steps g n (step_seq st) cs,
                step_seq := step_seq st + length cs\<rparr>)"
  by (induction cs arbitrary: st) (simp_all add: step_create_def graph_ids_def)

lemma insert_calls_fk:
  "g \<notin> graph_ids st \<Longrightarrow>
   insert_calls g n cs st = ((if cs = [] then None else Some ForeignKeyViolation), st)"
  by (cases cs) (simp_all add: step_create_def)

lemma count_calls_simps [simp]:
  "count_calls [] = 0"
  "count_calls ((n, cs) # ns) = length cs + count_calls ns"
  by (simp_all add: count_calls_def)

lemma insert_nodes_ok:
  "g \<in> graph_ids st \<Longrightarrow>
   insert_nodes g ns st =
     (None, st\<lparr>step_tbl := step_tbl st @ new_node_steps g (step_seq st) ns,
                step_seq := step_seq st + count_calls ns\<rparr>)"
proof (induction ns arbitrary: st)
  case Nil
  then show ?case by simp
next
  case (Cons p ns)
  obtain n cs where p: "p = (n, cs)" by (cases p)
  let ?st' = "st\<lparr>step_tbl := step_tbl st @ new_steps g n (step_seq st) cs,
                  step_seq := step_seq st + length cs\<rparr>"
  have "g \<in> graph_ids ?st'" using Cons.prems by (simp add: graph_ids_def)
  from Cons.IH [OF this] show ?case
    using Cons.prems by (simp add: p insert_calls_ok add.assoc)
qed

lemma insert_nodes_fk:
  "g \<notin> graph_ids st \<Longrightarrow>
   insert_nodes g ns st = ((if count_calls ns = 0 then None else Some ForeignKeyViolation), st)"
proof (induction ns)
  case Nil
  then show ?case by simp
next
  case (Cons p ns)
  obtain n cs where p: "p = (n, cs)" by (cases p)
  from Cons show ?case by (simp add: p insert_calls_fk)
qed

lemma insert_edges_ok:
  "g \<in> graph_ids st \<Longrightarrow>
   insert_edges g es st =
     (None, st\<lparr>edge_tbl := edge_tbl st @ new_edges g (edge_seq st) es,
                edge_seq := edge_seq st + length es\<rparr>)"
  by (induction es arbitrary: st) (simp_all add: edge_create_def graph_ids_def)

lemma insert_edges_fk:
  "g \<notin> graph_ids st \<Longrightarrow>
   insert_edges g es st = ((if es = [] then None else Some ForeignKeyViolation), st)"
  by (cases es) (simp_all add: edge_create_def)

lemma POST_ingest_ok:
  assumes "graphId body = Val g" "g \<noteq> []" "g \<in> graph_ids st"
  shows "POST_ingest st body =
    (Json ''ok'',
     st\<lparr>step_tbl := filter (\<lambda>r. step_graphId r \<noteq> g) (step_tbl st)
                      @ new_node_steps g (step_seq st) (or_empty (nodes body)),
        edge_tbl := filter (\<lambda>r. edge_graphId r \<noteq> g) (edge_tbl st)
                      @ new_edges g (edge_seq st) (or_empty (edges body)),
        step_seq := step_seq st + count_calls (or_empty (nodes body)),
        edge_seq := edge_seq st + length (or_empty (edges body))\<rparr>)"
proof -
  let ?st2 = "edge_deleteMany g (step_deleteMany g st)"
  have g2: "g \<in> graph_ids ?st2" using assms(3) by simp
  let ?st3 = "?st2\<lparr>step_tbl := step_tbl ?st2 @ new_node_steps g (step_seq ?st2) (or_empty (nodes body)),
                   step_seq := step_seq ?st2 + count_calls (or_empty (nodes body))\<rparr>"
  have g3: "g \<in> graph_ids ?st3" using assms(3) by (simp add: graph_ids_def edge_deleteMany_def step_deleteMany_def)
  have n: "insert_nodes g (or_empty (nodes body)) ?st2 = (None, ?st3)"
    by (rule insert_nodes_ok [OF g2])
  have e: "insert_edges g (or_empty (edges body)) ?st3 =
     (None, ?st3\<lparr>edge_tbl := edge_tbl ?st3 @ new_edges g (edge_seq ?st3) (or_empty (edges body)),
                  edge_seq := edge_seq ?st3 + length (or_empty (edges body))\<rparr>)"
    by (rule insert_edges_ok [OF g3])
  show ?thesis
    unfolding POST_ingest_def Let_def assms(1) js.case n e prod.case option.case
    using assms(2) by (simp add: edge_deleteMany_def step_deleteMany_def)
qed

lemma POST_ingest_fk:
  assumes "graphId body = Val g" "g \<noteq> []" "g \<notin> graph_ids st"
  shows "POST_ingest st body =
    ((if count_calls (or_empty (nodes body)) = 0 \<and> or_empty (edges body) = []
      then Json ''ok'' else Failed ''Failed'' 500),
     st\<lparr>step_tbl := filter (\<lambda>r. step_graphId r \<noteq> g) (step_tbl st),
        edge_tbl := filter (\<lambda>r. edge_graphId r \<noteq> g) (edge_tbl st)\<rparr>)"
proof -
  let ?st2 = "edge_deleteMany g (step_deleteMany g st)"
  have g2: "g \<notin> graph_ids ?st2" using assms(3) by simp
  have st2: "?st2 = st\<lparr>step_tbl := filter (\<lambda>r. step_graphId r \<noteq> g) (step_tbl st),
                        edge_tbl := filter (\<lambda>r. edge_graphId r \<noteq> g) (edge_tbl st)\<rparr>"
    by (simp add: edge_deleteMany_def step_deleteMany_def)
  have "POST_ingest st body =
    ((if count_calls (or_empty (nodes body)) = 0 \<and> or_empty (edges body) = []
      then Json ''ok'' else Failed ''Failed'' 500), ?st2)"
    unfolding POST_ingest_def Let_def assms(1) js.case
    using assms(2) by (simp add: insert_nodes_fk [OF g2] insert_edges_fk [OF g2])
  then show ?thesis by (simp only: st2)
qed

lemma POST_ingest_no_id:
  "graphId body = Undefined \<or> graphId body = Null \<or> graphId body = Val [] \<Longrightarrow>
   POST_ingest st body = (Failed ''Failed'' 500, st)"
  by (auto simp: POST_ingest_def)


subsection \<open>The rows written by Ingest\<close>

lemma new_steps_graphId: "r \<in> set (new_steps g n i cs) \<Longrightarrow> step_graphId r = g \<and> nodeName r = n"
  by (induction cs arbitrary: i) auto

lemma new_node_steps_graphId: "r \<in> set (new_node_steps g i ns) \<Longrightarrow> step_graphId r = g"
  by (induction ns arbitrary: i) (auto dest: new_steps_graphId)

lemma new_edges_graphId: "r \<in> set (new_edges g i es) \<Longrightarrow> edge_graphId r = g"
  by (induction es arbitrary: i) auto

lemma filter_new_node_steps [simp]:
  "filter (\<lambda>r. step_graphId r = g) (new_node_steps g i ns) = new_node_steps g i ns"
  "filter (\<lambda>r. step_graphId r \<noteq> g) (new_node_steps g i ns) = []"
  by (auto simp: filter_id_conv filter_empty_conv dest: new_node_steps_graphId)

lemma filter_new_edges [simp]:
  "filter (\<lambda>r. edge_graphId r = g) (new_edges g i es) = new_edges g i es"
  "filter (\<lambda>r. edge_graphId r \<noteq> g) (new_edges g i es) = []"
  by (auto simp: filter_id_conv filter_empty_conv dest: new_edges_graphId)

lemma filter_filter_neq [simp]:
  "filter (\<lambda>r. f r = g) (filter (\<lambda>r. f r \<noteq> g) xs) = []"
  "filter (\<lambda>r. f r \<noteq> g) (filter (\<lambda>r. f r \<noteq> g) xs) = filter (\<lambda>r. f r \<noteq> g) xs"
  by (induction xs) auto

lemma length_new_steps [simp]: "length (new_steps g n i cs) = length cs"
  by (induction cs arbitrary: i) auto

lemma length_new_node_steps [simp]: "length (new_node_steps g i ns) = count_calls ns"
  by (induction ns arbitrary: i) auto

lemma length_new_edges [simp]: "length (new_edges g i es) = length es"
  by (induction es arbitrary: i) auto

lemma step_data_new_steps: "map step_data (new_steps g n i cs) = map step_data (new_steps g n j cs)"
  by (induction cs arbitrary: i j) (auto simp: step_data_def)

lemma step_data_new_node_steps:
  "map step_data (new_node_steps g i ns) = map step_data (new_node_steps g j ns)"
proof (induction ns arbitrary: i j)
  case Nil
  then show ?case by simp
next
  case (Cons p ns)
  obtain n cs where p: "p = (n, cs)" by (cases p)
  show ?case
    using Cons [of "i + length cs" "j + length cs"] step_data_new_steps [of g n i cs j]
    by (simp add: p)
qed

lemma edge_data_new_edges: "map edge_data (new_edges g i es) = map edge_data (new_edges g j es)"
  by (induction es arbitrary: i j) (auto simp: edge_data_def)




lemma edge_entry_new_edges: "map edge_entry (new_edges g i es) = map stored_edge es"
  by (induction es arbitrary: i)
    (auto simp: edge_entry_def stored_edge_def nullable_def split: js.splits)

section \<open>The load loop\<close>

lemma parse_or_empty_stringify [simp]: "parse_or_empty (JSON_stringify v) = Inr v"
  by (simp add: parse_or_empty_def JSON_stringify_not_Nil JSON_roundtrip)

lemma parse_or_empty_Nil: "parse_or_empty [] = Inr (JObj [])"
  by (simp add: parse_or_empty_def JSON_parse_def is_ws_def)

lemma map_fst_push_to [simp]: "map fst (push_to k c obj) = map fst obj"
  by (induction obj) (auto simp: push_to_def)

lemma map_of_push_to:
  "map_of (push_to k c obj) k' =
     (if k' = k then map_option (\<lambda>cs. cs @ [c]) (map_of obj k) else map_of obj k')"
  by (induction obj) (auto simp: push_to_def)

lemma has_own_iff: "has_own obj k \<longleftrightarrow> k \<in> set (map fst obj)"
  by (simp add: has_own_def)


lemma push_step_Inr:
  assumes "push_step obj s = Inr obj'"
  obtains c where "row_call s = Some c"
    and "has_own obj (nodeName s) \<or> nodeName s \<notin> set Object_prototype_keys"
    and "obj' = push_to (nodeName s) c
                  (if has_own obj (nodeName s) then obj else obj @ [(nodeName s, [])])"
  using assms
  by (auto simp: push_step_def row_call_def Let_def has_own_def split: sum.splits if_splits)

lemma push_step_parse_fail: "row_call s = None \<Longrightarrow> \<exists>e. push_step obj s = Inl e"
  by (auto simp: push_step_def row_call_def Let_def split: sum.splits)

lemma push_step_prototype_fail:
  "nodeName s \<in> set Object_prototype_keys \<Longrightarrow> \<not> has_own obj (nodeName s) \<Longrightarrow>
   \<exists>e. push_step obj s = Inl e"
  by (auto simp: push_step_def Let_def split: sum.splits)

lemma collect_nodes_snoc:
  "collect_nodes acc (rows @ [r]) =
     (case collect_nodes acc rows of Inl e \<Rightarrow> Inl e | Inr obj \<Rightarrow> push_step obj r)"
  by (induction rows arbitrary: acc) (auto split: sum.splits)

lemma grouped_snoc:
  "grouped (rows @ [r]) k =
     (if nodeName r = k then grouped rows k @ (case row_call r of Some c \<Rightarrow> [c] | None \<Rightarrow> [])
      else grouped rows k)"
  by (auto simp: grouped_def List.map_filter_def split: option.splits)

lemma grouped_absent: "k \<notin> nodeName ` set rows \<Longrightarrow> grouped rows k = []"
  by (auto simp: grouped_def List.map_filter_def filter_empty_conv)

lemma collect_nodes_grouped:
  assumes "collect_nodes [] rows = Inr obj"
  shows "distinct (map fst obj) \<and> set (map fst obj) = nodeName ` set rows
       \<and> (\<forall>k. map_of obj k = (if k \<in> nodeName ` set rows then Some (grouped rows k) else None))
       \<and> (\<forall>r \<in> set rows. row_call r \<noteq> None)"
  using assms
proof (induction rows arbitrary: obj rule: rev_induct)
  case Nil
  then show ?case by simp
next
  case (snoc r rows)
  from snoc.prems obtain obj0 where c0: "collect_nodes [] rows = Inr obj0"
    and p: "push_step obj0 r = Inr obj"
    by (auto simp: collect_nodes_snoc split: sum.splits)
  from snoc.IH [OF c0] have d0: "distinct (map fst obj0)"
    and k0: "set (map fst obj0) = nodeName ` set rows"
    and m0: "\<And>k. map_of obj0 k = (if k \<in> nodeName ` set rows then Some (grouped rows k) else None)"
    and r0: "\<forall>r \<in> set rows. row_call r \<noteq> None"
    by auto
  let ?n = "nodeName r"
  from p obtain c where c: "row_call r = Some c"
    and obj: "obj = push_to ?n c (if has_own obj0 ?n then obj0 else obj0 @ [(?n, [])])"
    by (rule push_step_Inr)
  let ?X = "if has_own obj0 ?n then obj0 else obj0 @ [(?n, [])]"
  have dX: "distinct (map fst ?X)" using d0 by (auto simp: has_own_iff)
  have kX: "set (map fst ?X) = nodeName ` set (rows @ [r])"
    using k0 by (auto simp: has_own_iff)
  have mXn: "map_of ?X ?n = Some (grouped rows ?n)"
  proof (cases "has_own obj0 ?n")
    case True
    then have "?n \<in> nodeName ` set rows" using k0 by (simp add: has_own_iff)
    with True show ?thesis by (simp add: m0)
  next
    case False
    then have "?n \<notin> nodeName ` set rows" using k0 by (simp add: has_own_iff)
    then have "grouped rows ?n = []" "map_of obj0 ?n = None"
      by (simp_all add: grouped_absent m0)
    with False show ?thesis by (simp add: map_add_def)
  qed
  have mX: "\<And>k. k \<noteq> ?n \<Longrightarrow> map_of ?X k = map_of obj0 k"
    by (auto simp: map_add_def split: option.splits)
  have "distinct (map fst obj)" using dX by (simp add: obj)
  moreover have "set (map fst obj) = nodeName ` set (rows @ [r])"
    using kX by (simp add: obj)
  moreover have "\<forall>k. map_of obj k =
      (if k \<in> nodeName ` set (rows @ [r]) then Some (grouped (rows @ [r]) k) else None)"
  proof
    fix k
    show "map_of obj k =
      (if k \<in> nodeName ` set (rows @ [r]) then Some (grouped (rows @ [r]) k) else None)"
    proof (cases "k = ?n")
      case True
      then show ?thesis
        by (simp add: obj map_of_push_to mXn grouped_snoc c del: map_of_append)
    next
      case False
      then have "map_of obj k = map_of obj0 k"
        using mX [of k] by (simp add: obj map_of_push_to del: map_of_append)
      with False show ?thesis by (auto simp: m0 grouped_snoc)
    qed
  qed
  moreover have "\<forall>r' \<in> set (rows @ [r]). row_call r' \<noteq> None"
    using r0 c by auto
  ultimately show ?case by blast
qed

lemma collect_nodes_no_prototype:
  "collect_nodes acc rows = Inr obj \<Longrightarrow> set (map fst acc) \<inter> set Object_prototype_keys = {} \<Longrightarrow>
   nodeName ` set rows \<inter> set Object_prototype_keys = {}"
proof (induction rows arbitrary: acc)
  case Nil
  then show ?case by simp
next
  case (Cons r rows)
  from Cons.prems(1) obtain acc' where p: "push_step acc r = Inr acc'"
    and c: "collect_nodes acc' rows = Inr obj"
    by (auto split: sum.splits)
  from p obtain c' where h: "has_own acc (nodeName r) \<or> nodeName r \<notin> set Object_prototype_keys"
    and a: "acc' = push_to (nodeName r) c'
                  (if has_own acc (nodeName r) then acc else acc @ [(nodeName r, [])])"
    by (rule push_step_Inr)
  from h Cons.prems(2) have n: "nodeName r \<notin> set Object_prototype_keys"
    by (auto simp: has_own_iff)
  with Cons.prems(2) have "set (map fst acc') \<inter> set Object_prototype_keys = {}"
    by (auto simp: a)
  from Cons.IH [OF c this] n show ?case by simp
qed


lemma collect_nodes_parse_fail:
  "\<exists>r \<in> set rows. row_call r = None \<Longrightarrow> \<exists>e. collect_nodes acc rows = Inl e"
proof (induction rows arbitrary: acc)
  case Nil
  then show ?case by simp
next
  case (Cons r rows)
  show ?case
  proof (cases "push_step acc r")
    case (Inl e)
    then show ?thesis by simp
  next
    case (Inr acc')
    then have "row_call r \<noteq> None" using push_step_parse_fail [of r acc] by auto
    with Cons.prems have "\<exists>r \<in> set rows. row_call r = None" by auto
    from Cons.IH [OF this, of acc'] Inr show ?thesis by simp
  qed
qed

subsection \<open>The handler\<close>

lemma GET_load_Json:
  assumes "GET_load st q = Json b"
  obtains g where "q = Some g" "g \<noteq> []"
    and "collect_nodes [] (step_findMany g st) = Inr (resp_nodes b)"
    and "resp_edges b = map edge_entry (edge_findMany g st)"
  using assms
  by (auto simp: GET_load_def Let_def split: option.splits if_splits sum.splits)


lemma GET_load_fail:
  "g \<noteq> [] \<Longrightarrow> collect_nodes [] (step_findMany g st) = Inl e \<Longrightarrow>
   GET_load st (Some g) = Failed ''Failed'' 500"
  by (simp add: GET_load_def)

subsection \<open>Load reads no store-assigned key\<close>

lemma push_step_data: "step_data s = step_data s' \<Longrightarrow> push_step obj s = push_step obj s'"
  by (auto simp: push_step_def step_data_def Let_def split: sum.splits)

lemma collect_nodes_data:
  "map step_data rows = map step_data rows' \<Longrightarrow> collect_nodes acc rows = collect_nodes acc rows'"
proof (induction rows arbitrary: rows' acc)
  case Nil
  then show ?case by simp
next
  case (Cons r rows)
  then obtain r' rs' where r': "rows' = r' # rs'" "step_data r = step_data r'"
    "map step_data rows = map step_data rs'"
    by (cases rows') auto
  then show ?case
    using Cons.IH [OF r'(3)] push_step_data [OF r'(2)] by (simp split: sum.splits)
qed

lemma filter_step_data:
  assumes "map step_data xs = map step_data ys"
  shows "map step_data (filter (\<lambda>r. step_graphId r = g) xs)
       = map step_data (filter (\<lambda>r. step_graphId r = g) ys)"
proof -
  have "(\<lambda>r. step_graphId r = g) = (\<lambda>d. fst d = g) \<circ> step_data"
    by (auto simp: step_data_def)
  then have "\<And>zs. map step_data (filter (\<lambda>r. step_graphId r = g) zs)
      = filter (\<lambda>d. fst d = g) (map step_data zs)"
    by (simp add: filter_map)
  with assms show ?thesis by simp
qed

lemma filter_edge_data:
  assumes "map edge_data xs = map edge_data ys"
  shows "map edge_data (filter (\<lambda>r. edge_graphId r = g) xs)
       = map edge_data (filter (\<lambda>r. edge_graphId r = g) ys)"
proof -
  have "(\<lambda>r. edge_graphId r = g) = (\<lambda>d. fst d = g) \<circ> edge_data"
    by (auto simp: edge_data_def)
  then have "\<And>zs. map edge_data (filter (\<lambda>r. edge_graphId r = g) zs)
      = filter (\<lambda>d. fst d = g) (map edge_data zs)"
    by (simp add: filter_map)
  with assms show ?thesis by simp
qed

lemma edge_entry_data:
  "map edge_data xs = map edge_data ys \<Longrightarrow> map edge_entry xs = map edge_entry ys"
proof (induction xs arbitrary: ys)
  case Nil
  then show ?case by simp
next
  case (Cons x xs)
  then obtain y ys' where y: "ys = y # ys'" "edge_data x = edge_data y"
    "map edge_data xs = map edge_data ys'"
    by (cases ys) auto
  have "edge_entry x = edge_entry y"
    using y(2) by (simp add: edge_entry_def edge_data_def)
  moreover have "map edge_entry xs = map edge_entry ys'"
    by (rule Cons.IH [OF y(3)])
  ultimately show ?case by (simp add: y(1))
qed

lemma GET_load_data:
  assumes "map step_data (step_tbl a) = map step_data (step_tbl b)"
    and "map edge_data (edge_tbl a) = map edge_data (edge_tbl b)"
  shows "GET_load a q = GET_load b q"
proof (cases q)
  case None
  then show ?thesis by (simp add: GET_load_def)
next
  case (Some g)
  have "collect_nodes [] (step_findMany g a) = collect_nodes [] (step_findMany g b)"
    unfolding step_findMany_def by (intro collect_nodes_data filter_step_data assms(1))
  moreover have "map edge_entry (edge_findMany g a) = map edge_entry (edge_findMany g b)"
    unfolding edge_findMany_def by (intro edge_entry_data filter_edge_data assms(2))
  ultimately show ?thesis by (auto simp: Some GET_load_def Let_def split: sum.splits)
qed

subsection \<open>Loading what Ingest wrote\<close>

lemma row_call_new_steps: "List.map_filter row_call (new_steps g n i cs) = map stored_call cs"
  by (induction cs arbitrary: i) (simp_all add: List.map_filter_def row_call_def stored_call_def)



lemma filter_nodeName_new_steps:
  "filter (\<lambda>r. nodeName r = k) (new_steps g n i cs) = (if n = k then new_steps g n i cs else [])"
  by (auto simp: filter_id_conv filter_empty_conv dest: new_steps_graphId)

lemma grouped_append: "grouped (xs @ ys) k = grouped xs k @ grouped ys k"
  by (simp add: grouped_def List.map_filter_def)

lemma grouped_new_node_steps:
  "grouped (new_node_steps g i ns) k = map stored_call (calls_of ns k)"
proof (induction ns arbitrary: i)
  case Nil
  then show ?case by (simp add: grouped_def calls_of_def List.map_filter_def)
next
  case (Cons p ns)
  obtain n cs where p: "p = (n, cs)" by (cases p)
  have "grouped (new_steps g n i cs) k = (if n = k then map stored_call cs else [])"
    by (simp add: grouped_def filter_nodeName_new_steps row_call_new_steps)
  with Cons [of "i + length cs"] show ?case
    by (simp add: p grouped_append calls_of_def)
qed

lemma nodeName_new_steps: "nodeName ` set (new_steps g n i cs) = (if cs = [] then {} else {n})"
  by (induction cs arbitrary: i) auto

lemma nodeName_new_node_steps:
  "nodeName ` set (new_node_steps g i ns) = fst ` set (called_nodes ns)"
proof (induction ns arbitrary: i)
  case Nil
  then show ?case by (simp add: called_nodes_def)
next
  case (Cons p ns)
  obtain n cs where p: "p = (n, cs)" by (cases p)
  from Cons [of "i + length cs"] show ?case
    by (auto simp: p called_nodes_def image_Un nodeName_new_steps)
qed


section \<open>Ingest followed by Load\<close>

lemma graph_ids_ingest [simp]: "graph_ids (snd (POST_ingest st body)) = graph_ids st"
proof (cases "graphId body")
  case (Val g)
  show ?thesis
  proof (cases "g = []")
    case True
    with Val show ?thesis by (simp add: POST_ingest_no_id)
  next
    case False
    show ?thesis
    proof (cases "g \<in> graph_ids st")
      case True
      show ?thesis by (simp add: POST_ingest_ok [OF Val False True] graph_ids_def)
    next
      case no: False
      show ?thesis by (simp add: POST_ingest_fk [OF Val False no] graph_ids_def)
    qed
  qed
qed (simp_all add: POST_ingest_no_id)

lemma ingest_steps_of_graph:
  assumes "graphId body = Val g" and "g \<noteq> []"
  shows "step_findMany g (snd (POST_ingest st body)) =
    (if g \<in> graph_ids st then new_node_steps g (step_seq st) (or_empty (nodes body)) else [])"
proof (cases "g \<in> graph_ids st")
  case True
  then show ?thesis by (simp add: POST_ingest_ok [OF assms True] step_findMany_def)
next
  case False
  then show ?thesis by (simp add: POST_ingest_fk [OF assms False] step_findMany_def)
qed

lemma ingest_edges_of_graph:
  assumes "graphId body = Val g" and "g \<noteq> []"
  shows "edge_findMany g (snd (POST_ingest st body)) =
    (if g \<in> graph_ids st then new_edges g (edge_seq st) (or_empty (edges body)) else [])"
proof (cases "g \<in> graph_ids st")
  case True
  then show ?thesis by (simp add: POST_ingest_ok [OF assms True] edge_findMany_def)
next
  case False
  then show ?thesis by (simp add: POST_ingest_fk [OF assms False] edge_findMany_def)
qed

lemma ingest_twice:
  assumes "graphId b1 = Val g" and "graphId b2 = Val g" and "g \<noteq> []"
  shows "map step_data (step_tbl (snd (POST_ingest (snd (POST_ingest st b1)) b2)))
           = map step_data (step_tbl (snd (POST_ingest st b2)))"
    and "map edge_data (edge_tbl (snd (POST_ingest (snd (POST_ingest st b1)) b2)))
           = map edge_data (edge_tbl (snd (POST_ingest st b2)))"
    and "fst (POST_ingest (snd (POST_ingest st b1)) b2) = fst (POST_ingest st b2)"
    and "graph_tbl (snd (POST_ingest (snd (POST_ingest st b1)) b2))
           = graph_tbl (snd (POST_ingest st b2))"
proof -
  let ?st1 = "snd (POST_ingest st b1)"
  show "map step_data (step_tbl (snd (POST_ingest ?st1 b2)))
           = map step_data (step_tbl (snd (POST_ingest st b2)))"
  proof (cases "g \<in> graph_ids st")
    case True
    then have g1: "g \<in> graph_ids ?st1" by simp
    show ?thesis
      using step_data_new_node_steps
        [of g "step_seq ?st1" "or_empty (nodes b2)" "step_seq st"]
      by (simp add: POST_ingest_ok [OF assms(2,3) g1] POST_ingest_ok [OF assms(2,3) True])
        (simp add: POST_ingest_ok [OF assms(1,3) True])
  next
    case False
    then have g1: "g \<notin> graph_ids ?st1" by simp
    show ?thesis
      by (simp add: POST_ingest_fk [OF assms(2,3) g1] POST_ingest_fk [OF assms(2,3) False])
        (simp add: POST_ingest_fk [OF assms(1,3) False])
  qed
  show "map edge_data (edge_tbl (snd (POST_ingest ?st1 b2)))
           = map edge_data (edge_tbl (snd (POST_ingest st b2)))"
  proof (cases "g \<in> graph_ids st")
    case True
    then have g1: "g \<in> graph_ids ?st1" by simp
    show ?thesis
      using edge_data_new_edges
        [of g "edge_seq ?st1" "or_empty (edges b2)" "edge_seq st"]
      by (simp add: POST_ingest_ok [OF assms(2,3) g1] POST_ingest_ok [OF assms(2,3) True])
        (simp add: POST_ingest_ok [OF assms(1,3) True])
  next
    case False
    then have g1: "g \<notin> graph_ids ?st1" by simp
    show ?thesis
      by (simp add: POST_ingest_fk [OF assms(2,3) g1] POST_ingest_fk [OF assms(2,3) False])
        (simp add: POST_ingest_fk [OF assms(1,3) False])
  qed
  show "fst (POST_ingest ?st1 b2) = fst (POST_ingest st b2)"
  proof (cases "g \<in> graph_ids st")
    case True
    then have g1: "g \<in> graph_ids ?st1" by simp
    show ?thesis
      by (simp add: POST_ingest_ok [OF assms(2,3) g1] POST_ingest_ok [OF assms(2,3) True])
  next
    case False
    then have g1: "g \<notin> graph_ids ?st1" by simp
    show ?thesis
      by (simp add: POST_ingest_fk [OF assms(2,3) g1] POST_ingest_fk [OF assms(2,3) False])
  qed
  show "graph_tbl (snd (POST_ingest ?st1 b2)) = graph_tbl (snd (POST_ingest st b2))"
  proof (cases "g \<in> graph_ids st")
    case True
    then have g1: "g \<in> graph_ids ?st1" by simp
    show ?thesis
      by (simp add: POST_ingest_ok [OF assms(2,3) g1] POST_ingest_ok [OF assms(2,3) True])
        (simp add: POST_ingest_ok [OF assms(1,3) True])
  next
    case False
    then have g1: "g \<notin> graph_ids ?st1" by simp
    show ?thesis
      by (simp add: POST_ingest_fk [OF assms(2,3) g1] POST_ingest_fk [OF assms(2,3) False])
        (simp add: POST_ingest_fk [OF assms(1,3) False])
  qed
qed

lemma load_after_ingest:
  assumes "graphId body = Val g" and "g \<noteq> []"
    and "GET_load (snd (POST_ingest st body)) (Some g) = Json b"
  shows "distinct (map fst (resp_nodes b))"
    and "set (map fst (resp_nodes b)) =
           (if g \<in> graph_ids st then fst ` set (called_nodes (or_empty (nodes body))) else {})"
    and "map_of (resp_nodes b) k =
           (if g \<in> graph_ids st \<and> k \<in> fst ` set (called_nodes (or_empty (nodes body)))
            then Some (map stored_call (calls_of (or_empty (nodes body)) k)) else None)"
    and "resp_edges b =
           (if g \<in> graph_ids st then map stored_edge (or_empty (edges body)) else [])"
proof -
  let ?st' = "snd (POST_ingest st body)"
  from assms(3) have c: "collect_nodes [] (step_findMany g ?st') = Inr (resp_nodes b)"
    and e: "resp_edges b = map edge_entry (edge_findMany g ?st')"
    by (auto elim: GET_load_Json)
  note s = ingest_steps_of_graph [OF assms(1,2), of st]
  note gr = collect_nodes_grouped [OF c]
  from gr show "distinct (map fst (resp_nodes b))" by simp
  from gr show "set (map fst (resp_nodes b)) =
           (if g \<in> graph_ids st then fst ` set (called_nodes (or_empty (nodes body))) else {})"
    by (simp add: s nodeName_new_node_steps)
  from gr have "map_of (resp_nodes b) k =
      (if k \<in> nodeName ` set (step_findMany g ?st') then Some (grouped (step_findMany g ?st') k)
       else None)"
    by blast
  then show "map_of (resp_nodes b) k =
           (if g \<in> graph_ids st \<and> k \<in> fst ` set (called_nodes (or_empty (nodes body)))
            then Some (map stored_call (calls_of (or_empty (nodes body)) k)) else None)"
    by (cases "g \<in> graph_ids st")
      (simp_all add: s nodeName_new_node_steps grouped_new_node_steps)
  from e show "resp_edges b =
           (if g \<in> graph_ids st then map stored_edge (or_empty (edges body)) else [])"
    by (simp add: ingest_edges_of_graph [OF assms(1,2)] edge_entry_new_edges)
qed


section \<open>Claims\<close>

subsection \<open>Load of a graph without rows\<close>

text \<open>
  C8. For a supplied (non-empty) graphId that has no Step rows and no Edge rows in the
  store, Load succeeds and returns the empty nodes mapping and the empty edges list.
  The handler treats the empty string as a missing graphId, so it is not a graphId here.
\<close>

theorem C8_load_empty_graph:
  assumes "g \<noteq> []" and "step_findMany g st = []" and "edge_findMany g st = []"
  shows "GET_load st (Some g) = Json \<lparr>resp_nodes = [], resp_edges = []\<rparr>"
  using assms by (simp add: GET_load_def)

theorem C8_load_empty_graph_witness:
  "''g3'' \<noteq> [] \<and> step_findMany ''g3'' ex_store = [] \<and> edge_findMany ''g3'' ex_store = []
   \<and> GET_load ex_store (Some ''g3'') = Json \<lparr>resp_nodes = [], resp_edges = []\<rparr>"
proof -
  have h: "''g3'' \<noteq> []" "step_findMany ''g3'' ex_store = []" "edge_findMany ''g3'' ex_store = []"
    by (simp_all add: step_findMany_def edge_findMany_def ex_store_def)
  from h C8_load_empty_graph [OF h] show ?thesis by simp
qed

subsection \<open>The keys of the nodes mapping\<close>

text \<open>
  C10. In every Load response the keys of the nodes mapping are exactly the distinct
  nodeName values of the Step rows of that graphId, that is, of the rows of the Step
  table whose graphId is the one asked for. The edges list holds the entries of the
  Edge rows of that graphId, and an endpoint of such an Edge row that has no Step row of
  the graph is not a key.
\<close>

theorem C10_node_keys_from_step_rows:
  assumes "GET_load st (Some g) = Json b"
  shows "distinct (map fst (resp_nodes b))
       \<and> set (map fst (resp_nodes b))
           = nodeName ` set (filter (\<lambda>r. step_graphId r = g) (step_tbl st))
       \<and> resp_edges b = map edge_entry (filter (\<lambda>r. edge_graphId r = g) (edge_tbl st))
       \<and> (\<forall>e \<in> set (filter (\<lambda>r. edge_graphId r = g) (edge_tbl st)).
            (sourceNode e \<notin> nodeName ` set (filter (\<lambda>r. step_graphId r = g) (step_tbl st))
               \<longrightarrow> sourceNode e \<notin> set (map fst (resp_nodes b)))
          \<and> (targetNode e \<notin> nodeName ` set (filter (\<lambda>r. step_graphId r = g) (step_tbl st))
               \<longrightarrow> targetNode e \<notin> set (map fst (resp_nodes b))))"
proof -
  from assms have c: "collect_nodes [] (step_findMany g st) = Inr (resp_nodes b)"
    and e: "resp_edges b = map edge_entry (edge_findMany g st)"
    by (auto elim: GET_load_Json)
  from collect_nodes_grouped [OF c] e show ?thesis
    by (simp add: step_findMany_def edge_findMany_def)
qed

theorem C10_node_keys_from_step_rows_witness:
  "GET_load ex_store (Some ''g1'') =
     Json \<lparr>resp_nodes = [(''old'', [\<lparr>stepIndex = 0, input = Some (JObj []), output = Some (JObj [])\<rparr>])],
           resp_edges = [\<lparr>source = ''old'', target = ''gone'', conditionKey = Val ''k'',
                          used_count = Val 3\<rparr>]\<rparr>
   \<and> set (map fst (resp_nodes
         \<lparr>resp_nodes = [(''old'', [\<lparr>stepIndex = 0, input = Some (JObj []), output = Some (JObj [])\<rparr>])],
          resp_edges = [\<lparr>source = ''old'', target = ''gone'', conditionKey = Val ''k'',
                         used_count = Val 3\<rparr>]\<rparr>))
       = nodeName ` set (filter (\<lambda>r. step_graphId r = ''g1'') (step_tbl ex_store))
   \<and> nodeName ` set (filter (\<lambda>r. step_graphId r = ''g1'') (step_tbl ex_store)) = {''old''}
   \<and> nodeName ` set (step_tbl ex_store) = {''old'', ''x''}
   \<and> map targetNode (filter (\<lambda>r. edge_graphId r = ''g1'') (edge_tbl ex_store)) = [''gone'']"
proof -
  have l: "GET_load ex_store (Some ''g1'') =
     Json \<lparr>resp_nodes = [(''old'', [\<lparr>stepIndex = 0, input = Some (JObj []), output = Some (JObj [])\<rparr>])],
           resp_edges = [\<lparr>source = ''old'', target = ''gone'', conditionKey = Val ''k'',
                          used_count = Val 3\<rparr>]\<rparr>"
    by code_simp
  have r: "nodeName ` set (filter (\<lambda>r. step_graphId r = ''g1'') (step_tbl ex_store)) = {''old''}"
    "nodeName ` set (step_tbl ex_store) = {''old'', ''x''}"
    "map targetNode (filter (\<lambda>r. edge_graphId r = ''g1'') (edge_tbl ex_store)) = [''gone'']"
    by (simp_all add: ex_store_def)
  from l r C10_node_keys_from_step_rows [OF l] show ?thesis by blast
qed

subsection \<open>The usage count of an edge entry\<close>

text \<open>
  C6, as stated, fails: Load substitutes nothing for a NULL \<open>usedCount\<close>. The Edge row
  of \<open>null_count_store\<close> has NULL there, and its entry in the Load response carries
  \<^verbatim>\<open>used_count: null\<close>, not 0.
\<close>

theorem C6_counterexample:
  "usedCount (hd (edge_findMany ''g1'' null_count_store)) = None
   \<and> GET_load null_count_store (Some ''g1'') =
       Json \<lparr>resp_nodes = [(''a'', [\<lparr>stepIndex = 0, input = Some (JObj []), output = Some (JObj [])\<rparr>])],
             resp_edges = [\<lparr>source = ''a'', target = ''b'', conditionKey = Undefined,
                            used_count = Null\<rparr>]\<rparr>
   \<and> (Null :: int js) \<noteq> Val 0"
  by (rule conjI, code_simp, rule conjI, code_simp, simp)

text \<open>
  C6, amended. In every edge entry of a Load response, \<open>used_count\<close> is the stored
  \<open>usedCount\<close> of the Edge row passed through unchanged: a number as that number, NULL
  as \<^verbatim>\<open>null\<close>. The default 0 is applied by Ingest when it writes the row
  (\<^verbatim>\<open>ed.used_count || 0\<close>), so no row written by Ingest holds NULL.
\<close>

theorem C6_used_count_passed_through:
  "(GET_load st (Some g) = Json b \<longrightarrow>
      map used_count (resp_edges b)
        = map (\<lambda>e. case usedCount e of Some n \<Rightarrow> Val n | None \<Rightarrow> Null) (edge_findMany g st))
   \<and> (graphId body = Val g \<longrightarrow> g \<noteq> [] \<longrightarrow>
        (\<forall>e \<in> set (edge_findMany g (snd (POST_ingest st body))). usedCount e \<noteq> None))"
proof (intro conjI impI)
  assume "GET_load st (Some g) = Json b"
  then have "resp_edges b = map edge_entry (edge_findMany g st)"
    by (auto elim: GET_load_Json)
  then show "map used_count (resp_edges b)
        = map (\<lambda>e. case usedCount e of Some n \<Rightarrow> Val n | None \<Rightarrow> Null) (edge_findMany g st)"
    by (simp add: edge_entry_def)
next
  assume b: "graphId body = Val g" and g: "g \<noteq> []"
  have n: "\<And>i es e. e \<in> set (new_edges g i es) \<Longrightarrow> usedCount e \<noteq> None"
  proof -
    fix i es e show "e \<in> set (new_edges g i es) \<Longrightarrow> usedCount e \<noteq> None"
      by (induction es arbitrary: i) auto
  qed
  show "\<forall>e \<in> set (edge_findMany g (snd (POST_ingest st body))). usedCount e \<noteq> None"
  proof (cases "g \<in> graph_ids st")
    case True
    show ?thesis
      using n by (auto simp: POST_ingest_ok [OF b g True] edge_findMany_def)
  next
    case False
    show ?thesis
      by (simp add: POST_ingest_fk [OF b g False] edge_findMany_def)
  qed
qed

theorem C6_used_count_passed_through_witness:
  "GET_load null_count_store (Some ''g1'') =
       Json \<lparr>resp_nodes = [(''a'', [\<lparr>stepIndex = 0, input = Some (JObj []), output = Some (JObj [])\<rparr>])],
             resp_edges = [\<lparr>source = ''a'', target = ''b'', conditionKey = Undefined,
                            used_count = Null\<rparr>]\<rparr>
   \<and> map used_count [\<lparr>source = ''a'', target = ''b'', conditionKey = Undefined, used_count = Null\<rparr>]
       = map (\<lambda>e. case usedCount e of Some n \<Rightarrow> Val n | None \<Rightarrow> Null)
           (edge_findMany ''g1'' null_count_store)
   \<and> graphId ex_body = Val ''g1'' \<and> ''g1'' \<noteq> []
   \<and> None \<notin> usedCount ` set (edge_findMany ''g1'' (snd (POST_ingest ex_store ex_body)))
   \<and> edge_findMany ''g1'' (snd (POST_ingest ex_store ex_body)) \<noteq> []"
proof -
  have l: "GET_load null_count_store (Some ''g1'') =
       Json \<lparr>resp_nodes = [(''a'', [\<lparr>stepIndex = 0, input = Some (JObj []), output = Some (JObj [])\<rparr>])],
             resp_edges = [\<lparr>source = ''a'', target = ''b'', conditionKey = Undefined,
                            used_count = Null\<rparr>]\<rparr>"
    by code_simp
  have b: "graphId ex_body = Val ''g1''" "''g1'' \<noteq> []"
    by (simp_all add: ex_body_def)
  from C6_used_count_passed_through [where st = null_count_store and g = "''g1''"] l
  have p: "map used_count [\<lparr>source = ''a'', target = ''b'', conditionKey = Undefined, used_count = Null\<rparr>]
       = map (\<lambda>e. case usedCount e of Some n \<Rightarrow> Val n | None \<Rightarrow> Null)
           (edge_findMany ''g1'' null_count_store)"
    by fastforce
  from C6_used_count_passed_through [where st = ex_store and g = "''g1''" and body = ex_body] b
  have q0: "\<forall>e \<in> set (edge_findMany ''g1'' (snd (POST_ingest ex_store ex_body))). usedCount e \<noteq> None"
    by blast
  have q: "None \<notin> usedCount ` set (edge_findMany ''g1'' (snd (POST_ingest ex_store ex_body)))"
  proof
    assume "None \<in> usedCount ` set (edge_findMany ''g1'' (snd (POST_ingest ex_store ex_body)))"
    then obtain e where "e \<in> set (edge_findMany ''g1'' (snd (POST_ingest ex_store ex_body)))"
      "usedCount e = None"
      by (metis imageE)
    with q0 show False by blast
  qed
  have n: "edge_findMany ''g1'' (snd (POST_ingest ex_store ex_body)) \<noteq> []"
    unfolding ingest_edges_of_graph [OF b]
    by (simp add: ex_store_def ex_body_def graph_ids_def or_empty_def)
  from l p b q n show ?thesis by blast
qed

subsection \<open>Malformed stored payloads\<close>

text \<open>
  C3, as stated, fails: \<^verbatim>\<open>JSON.parse\<close> is called inside the handler's single
  \<^verbatim>\<open>try\<close> block, so its exception reaches the \<^verbatim>\<open>catch\<close> and Load answers with the
  failure response. The Step row of \<open>malformed_store\<close> has the input text \<^verbatim>\<open>{\<close>.
\<close>

theorem C3_counterexample:
  "inputJson (hd (step_findMany ''g1'' malformed_store)) = ''{''
   \<and> JSON_parse ''{'' = Inl SyntaxError
   \<and> GET_load malformed_store (Some ''g1'') = Failed ''Failed'' 500"
  by (rule conjI, code_simp, rule conjI, code_simp, code_simp)

text \<open>
  C3, amended. When the inputJson or outputJson text of a Step row of the graph is not
  empty and is malformed, Load catches the exception at the handler boundary and returns
  the failure response with status 500; no empty object is substituted. An empty text is
  deserialized to the empty object: in a Load response every entry is built from the
  texts of its row, and the payload built from an empty text is the empty object.
\<close>

theorem C3_malformed_payload_fails_load:
  "(g \<noteq> [] \<longrightarrow> r \<in> set (step_findMany g st) \<longrightarrow>
      (inputJson r \<noteq> [] \<and> JSON_parse (inputJson r) = Inl SyntaxError)
        \<or> (outputJson r \<noteq> [] \<and> JSON_parse (outputJson r) = Inl SyntaxError) \<longrightarrow>
      GET_load st (Some g) = Failed ''Failed'' 500)
   \<and> (GET_load st (Some g) = Json b \<longrightarrow>
        (\<forall>(k, cs) \<in> set (resp_nodes b). cs = grouped (step_findMany g st) k))
   \<and> (inputJson r = [] \<longrightarrow> row_call r \<noteq> None \<longrightarrow> input (the (row_call r)) = Some (JObj []))
   \<and> (outputJson r = [] \<longrightarrow> row_call r \<noteq> None \<longrightarrow> output (the (row_call r)) = Some (JObj []))"
proof (intro conjI impI)
  assume g: "g \<noteq> []" and r: "r \<in> set (step_findMany g st)"
    and m: "(inputJson r \<noteq> [] \<and> JSON_parse (inputJson r) = Inl SyntaxError)
        \<or> (outputJson r \<noteq> [] \<and> JSON_parse (outputJson r) = Inl SyntaxError)"
  from m have "row_call r = None"
    by (auto simp: row_call_def parse_or_empty_def split: sum.splits)
  with r obtain e where "collect_nodes [] (step_findMany g st) = Inl e"
    using collect_nodes_parse_fail [of "step_findMany g st" "[]"] by blast
  with g show "GET_load st (Some g) = Failed ''Failed'' 500"
    by (rule GET_load_fail)
next
  assume "GET_load st (Some g) = Json b"
  then have c: "collect_nodes [] (step_findMany g st) = Inr (resp_nodes b)"
    by (auto elim: GET_load_Json)
  from collect_nodes_grouped [OF c]
  have d: "distinct (map fst (resp_nodes b))"
    and k: "set (map fst (resp_nodes b)) = nodeName ` set (step_findMany g st)"
    and m: "\<And>k. map_of (resp_nodes b) k =
       (if k \<in> nodeName ` set (step_findMany g st) then Some (grouped (step_findMany g st) k) else None)"
    by auto
  show "\<forall>(k, cs) \<in> set (resp_nodes b). cs = grouped (step_findMany g st) k"
  proof (clarify)
    fix k cs assume kc: "(k, cs) \<in> set (resp_nodes b)"
    with d have "map_of (resp_nodes b) k = Some cs" by simp
    moreover from kc k have "k \<in> nodeName ` set (step_findMany g st)"
      by (metis fst_conv image_eqI set_map)
    ultimately show "cs = grouped (step_findMany g st) k" using m [of k] by simp
  qed
next
  assume "inputJson r = []" "row_call r \<noteq> None"
  then show "input (the (row_call r)) = Some (JObj [])"
    by (auto simp: row_call_def parse_or_empty_Nil split: sum.splits)
next
  assume "outputJson r = []" "row_call r \<noteq> None"
  then show "output (the (row_call r)) = Some (JObj [])"
    by (auto simp: row_call_def parse_or_empty_Nil split: sum.splits)
qed

theorem C3_malformed_payload_fails_load_witness:
  "''g1'' \<noteq> [] \<and> hd (step_tbl malformed_store) \<in> set (step_findMany ''g1'' malformed_store)
   \<and> inputJson (hd (step_tbl malformed_store)) \<noteq> []
   \<and> JSON_parse (inputJson (hd (step_tbl malformed_store))) = Inl SyntaxError
   \<and> GET_load malformed_store (Some ''g1'') = Failed ''Failed'' 500
   \<and> GET_load null_count_store (Some ''g1'') =
       Json \<lparr>resp_nodes = [(''a'', [\<lparr>stepIndex = 0, input = Some (JObj []), output = Some (JObj [])\<rparr>])],
             resp_edges = [\<lparr>source = ''a'', target = ''b'', conditionKey = Undefined,
                            used_count = Null\<rparr>]\<rparr>
   \<and> inputJson (hd (step_tbl null_count_store)) = []
   \<and> row_call (hd (step_tbl null_count_store)) \<noteq> None
   \<and> input (the (row_call (hd (step_tbl null_count_store)))) = Some (JObj [])"
proof -
  have h: "''g1'' \<noteq> []" "hd (step_tbl malformed_store) \<in> set (step_findMany ''g1'' malformed_store)"
    "inputJson (hd (step_tbl malformed_store)) \<noteq> []"
    by (simp_all add: malformed_store_def step_findMany_def)
  have p: "JSON_parse (inputJson (hd (step_tbl malformed_store))) = Inl SyntaxError"
    by code_simp
  have l: "GET_load null_count_store (Some ''g1'') =
       Json \<lparr>resp_nodes = [(''a'', [\<lparr>stepIndex = 0, input = Some (JObj []), output = Some (JObj [])\<rparr>])],
             resp_edges = [\<lparr>source = ''a'', target = ''b'', conditionKey = Undefined,
                            used_count = Null\<rparr>]\<rparr>"
    by code_simp
  have e: "inputJson (hd (step_tbl null_count_store)) = []"
    by (simp add: null_count_store_def)
  have c: "row_call (hd (step_tbl null_count_store)) \<noteq> None"
    by code_simp
  from C3_malformed_payload_fails_load
    [where g = "''g1''" and r = "hd (step_tbl malformed_store)" and st = malformed_store]
    h p
  have f: "GET_load malformed_store (Some ''g1'') = Failed ''Failed'' 500" by blast
  from C3_malformed_payload_fails_load
    [where r = "hd (step_tbl null_count_store)"] e c
  have i: "input (the (row_call (hd (step_tbl null_count_store)))) = Some (JObj [])" by blast
  from h p f l e c i show ?thesis by blast
qed

subsection \<open>Creating a graph without an identifier\<close>

text \<open>
  C4, as stated, fails: the create handler does not check \<open>graphId\<close>, and the \<open>id\<close>
  column has the default \<^verbatim>\<open>uuid()\<close>. A body without graphId persists a Graph row under
  the identifier the store generates and gets the success response.
\<close>

theorem C4_counterexample:
  "POST_start ''7f3c'' 9 ex_store \<lparr>start_graphId = Undefined, start_name = Undefined\<rparr> =
     (Json ''7f3c'',
      ex_store\<lparr>graph_tbl := graph_tbl ex_store
                  @ [\<lparr>graph_id = ''7f3c'', graph_name = ''Untitled'', createdAt = 9\<rparr>]\<rparr>)"
  by code_simp

text \<open>
  C4, amended. CreateGraph does not validate the identifier. For a request body lacking
  graphId the store assigns the identifier from its default \<^verbatim>\<open>uuid()\<close>: unless that
  identifier is already taken, exactly one Graph row is persisted under it, with the
  name defaulted as usual, and the success response returns the generated identifier.
  A graphId of \<^verbatim>\<open>null\<close> is refused by the store: the failure response is returned and
  no row is persisted.
\<close>

theorem C4_create_without_id_uses_store_default:
  "(start_graphId body = Undefined \<longrightarrow> uuid \<notin> graph_ids st \<longrightarrow>
      POST_start uuid now st body =
        (Json uuid,
         st\<lparr>graph_tbl := graph_tbl st
               @ [\<lparr>graph_id = uuid, graph_name = name_or_untitled (start_name body),
                   createdAt = now\<rparr>]\<rparr>))
   \<and> (start_graphId body = Null \<longrightarrow>
        POST_start uuid now st body = (Failed ''Failed to create graph'' 500, st))"
  by (simp add: POST_start_def graph_create_def Let_def)

theorem C4_create_without_id_uses_store_default_witness:
  "start_graphId \<lparr>start_graphId = Undefined, start_name = Val ''run''\<rparr> = Undefined
   \<and> ''7f3c'' \<notin> graph_ids ex_store
   \<and> POST_start ''7f3c'' 9 ex_store \<lparr>start_graphId = Undefined, start_name = Val ''run''\<rparr> =
        (Json ''7f3c'',
         ex_store\<lparr>graph_tbl := graph_tbl ex_store
               @ [\<lparr>graph_id = ''7f3c'',
                   graph_name = name_or_untitled (start_name \<lparr>start_graphId = Undefined, start_name = Val ''run''\<rparr>),
                   createdAt = 9\<rparr>]\<rparr>)
   \<and> start_graphId \<lparr>start_graphId = Null, start_name = Val ''run''\<rparr> = Null
   \<and> POST_start ''7f3c'' 9 ex_store \<lparr>start_graphId = Null, start_name = Val ''run''\<rparr> =
        (Failed ''Failed to create graph'' 500, ex_store)"
proof -
  have u: "''7f3c'' \<notin> graph_ids ex_store"
    by (simp add: graph_ids_def ex_store_def)
  from u
    C4_create_without_id_uses_store_default
      [where body = "\<lparr>start_graphId = Undefined, start_name = Val ''run''\<rparr>"
         and uuid = "''7f3c''" and st = ex_store and now = 9]
    C4_create_without_id_uses_store_default
      [where body = "\<lparr>start_graphId = Null, start_name = Val ''run''\<rparr>"
         and uuid = "''7f3c''" and st = ex_store and now = 9]
  show ?thesis by simp
qed

subsection \<open>Edges ingested without a condition key\<close>

text \<open>
  C7. After a snapshot has been ingested, the edges list of the Load response holds one
  entry per submitted edge, in order, and the entry of every edge submitted without a
  conditionKey has no conditionKey field: the field is absent (\<open>Undefined\<close>), and no
  entry of any Load response carries conditionKey \<^verbatim>\<open>null\<close>.
\<close>

theorem C7_absent_conditionKey_omitted:
  assumes "graphId body = Val g" and "g \<noteq> []" and "g \<in> graph_ids st"
    and "GET_load (snd (POST_ingest st body)) (Some g) = Json b"
  shows "resp_edges b = map stored_edge (or_empty (edges body))
       \<and> (\<forall>i < length (or_empty (edges body)).
            conditionKey (or_empty (edges body) ! i) = Undefined
              \<longrightarrow> conditionKey (resp_edges b ! i) = Undefined)
       \<and> (\<forall>e \<in> set (resp_edges b). conditionKey e \<noteq> Null)"
proof -
  from assms(4) have "resp_edges b = map edge_entry (edge_findMany g (snd (POST_ingest st body)))"
    by (auto elim: GET_load_Json)
  then have e: "resp_edges b = map stored_edge (or_empty (edges body))"
    by (simp add: POST_ingest_ok [OF assms(1-3)] edge_findMany_def edge_entry_new_edges)
  then show ?thesis
    by (auto simp: stored_edge_def split: js.splits)
qed

theorem C7_absent_conditionKey_omitted_witness:
  "graphId ex_body = Val ''g1'' \<and> ''g1'' \<noteq> [] \<and> ''g1'' \<in> graph_ids ex_store
   \<and> GET_load (snd (POST_ingest ex_store ex_body)) (Some ''g1'') =
       Json \<lparr>resp_nodes = [(''start'', [\<lparr>stepIndex = 0, input = Some (JObj []),
                                          output = Some (JObj [(''msg'', JStr ''hi'')])\<rparr>])],
             resp_edges = [\<lparr>source = ''start'', target = ''end'', conditionKey = Undefined,
                            used_count = Val 1\<rparr>]\<rparr>
   \<and> conditionKey (or_empty (edges ex_body) ! 0) = Undefined
   \<and> conditionKey (resp_edges
         \<lparr>resp_nodes = [(''start'', [\<lparr>stepIndex = 0, input = Some (JObj []),
                                      output = Some (JObj [(''msg'', JStr ''hi'')])\<rparr>])],
          resp_edges = [\<lparr>source = ''start'', target = ''end'', conditionKey = Undefined,
                         used_count = Val 1\<rparr>]\<rparr> ! 0) = Undefined"
proof -
  have h: "graphId ex_body = Val ''g1''" "''g1'' \<noteq> []" "''g1'' \<in> graph_ids ex_store"
    by (simp_all add: ex_body_def ex_store_def graph_ids_def)
  have l: "GET_load (snd (POST_ingest ex_store ex_body)) (Some ''g1'') =
       Json \<lparr>resp_nodes = [(''start'', [\<lparr>stepIndex = 0, input = Some (JObj []),
                                          output = Some (JObj [(''msg'', JStr ''hi'')])\<rparr>])],
             resp_edges = [\<lparr>source = ''start'', target = ''end'', conditionKey = Undefined,
                            used_count = Val 1\<rparr>]\<rparr>"
    by code_simp
  have u: "conditionKey (or_empty (edges ex_body) ! 0) = Undefined"
    by (simp add: ex_body_def or_empty_def)
  have len: "0 < length (or_empty (edges ex_body))"
    by (simp add: ex_body_def or_empty_def)
  from C7_absent_conditionKey_omitted [OF h l, THEN conjunct2, THEN conjunct1] len u
  have k: "conditionKey (resp_edges
         \<lparr>resp_nodes = [(''start'', [\<lparr>stepIndex = 0, input = Some (JObj []),
                                      output = Some (JObj [(''msg'', JStr ''hi'')])\<rparr>])],
          resp_edges = [\<lparr>source = ''start'', target = ''end'', conditionKey = Undefined,
                         used_count = Val 1\<rparr>]\<rparr> ! 0) = Undefined"
    by blast
  from h l u k show ?thesis by blast
qed

subsection \<open>Snapshots without a nodes or edges field\<close>




subsection \<open>A second snapshot supersedes the first\<close>

text \<open>
  C2. After Ingest of a snapshot S1 followed by Ingest of a snapshot S2 for the same
  graphId, whatever the store held before, a Load response contains only what S2 holds:
  every node key is a key of S2, every step entry under a key is the stored form of a
  call that S2 lists under that key, and every edge entry is the stored form of an edge
  of S2. The response is the one Load gives when S1 was never ingested.
\<close>

theorem C2_second_snapshot_supersedes:
  assumes "graphId S1 = Val g" and "graphId S2 = Val g" and "g \<noteq> []"
    and "GET_load (snd (POST_ingest (snd (POST_ingest st S1)) S2)) (Some g) = Json b"
  shows "(\<forall>(k, cs) \<in> set (resp_nodes b).
            k \<in> fst ` set (or_empty (nodes S2))
          \<and> (\<forall>c \<in> set cs. \<exists>cs2 c2. (k, cs2) \<in> set (or_empty (nodes S2)) \<and> c2 \<in> set cs2
                                \<and> c = stored_call c2))
       \<and> (\<forall>e \<in> set (resp_edges b). \<exists>e2 \<in> set (or_empty (edges S2)). e = stored_edge e2)
       \<and> GET_load (snd (POST_ingest (snd (POST_ingest st S1)) S2)) (Some g)
           = GET_load (snd (POST_ingest st S2)) (Some g)"
proof (intro conjI)
  let ?st1 = "snd (POST_ingest st S1)"
  let ?ns = "or_empty (nodes S2)"
  note l = load_after_ingest [OF assms(2,3,4)]
  show "\<forall>(k, cs) \<in> set (resp_nodes b).
            k \<in> fst ` set ?ns
          \<and> (\<forall>c \<in> set cs. \<exists>cs2 c2. (k, cs2) \<in> set ?ns \<and> c2 \<in> set cs2 \<and> c = stored_call c2)"
  proof (clarify, intro conjI ballI)
    fix k cs assume kc: "(k, cs) \<in> set (resp_nodes b)"
    with l(1) have m: "map_of (resp_nodes b) k = Some cs" by simp
    with l(3) [of k] have k: "k \<in> fst ` set (called_nodes ?ns)"
      and cs: "cs = map stored_call (calls_of ?ns k)"
      by (auto split: if_splits)
    from k show "k \<in> fst ` set ?ns" by (auto simp: called_nodes_def)
    fix c assume "c \<in> set cs"
    with cs obtain c2 where c2: "c2 \<in> set (calls_of ?ns k)" "c = stored_call c2" by auto
    from c2(1) obtain cs2 where "(k, cs2) \<in> set ?ns" "c2 \<in> set cs2"
      by (auto simp: calls_of_def)
    with c2(2) show "\<exists>cs2 c2. (k, cs2) \<in> set ?ns \<and> c2 \<in> set cs2 \<and> c = stored_call c2"
      by blast
  qed
  from l(4) show "\<forall>e \<in> set (resp_edges b). \<exists>e2 \<in> set (or_empty (edges S2)). e = stored_edge e2"
    by (auto split: if_splits)
  show "GET_load (snd (POST_ingest ?st1 S2)) (Some g) = GET_load (snd (POST_ingest st S2)) (Some g)"
    by (rule GET_load_data) (rule ingest_twice [OF assms(1,2,3)])+
qed

theorem C2_second_snapshot_supersedes_witness:
  "graphId ex_body = Val ''g1'' \<and> graphId unsorted_body = Val ''g1'' \<and> ''g1'' \<noteq> []
   \<and> GET_load (snd (POST_ingest (snd (POST_ingest ex_store ex_body)) unsorted_body)) (Some ''g1'') =
       Json \<lparr>resp_nodes =
               [(''a'', [\<lparr>stepIndex = 1, input = Some (JObj []), output = Some (JObj [])\<rparr>,
                         \<lparr>stepIndex = 0, input = Some (JNum 5), output = Some (JStr ''done'')\<rparr>])],
             resp_edges = []\<rparr>
   \<and> GET_load (snd (POST_ingest (snd (POST_ingest ex_store ex_body)) unsorted_body)) (Some ''g1'')
       = GET_load (snd (POST_ingest ex_store unsorted_body)) (Some ''g1'')"
proof -
  have h: "graphId ex_body = Val ''g1''" "graphId unsorted_body = Val ''g1''" "''g1'' \<noteq> []"
    by (simp_all add: ex_body_def unsorted_body_def)
  have l: "GET_load (snd (POST_ingest (snd (POST_ingest ex_store ex_body)) unsorted_body)) (Some ''g1'') =
       Json \<lparr>resp_nodes =
               [(''a'', [\<lparr>stepIndex = 1, input = Some (JObj []), output = Some (JObj [])\<rparr>,
                         \<lparr>stepIndex = 0, input = Some (JNum 5), output = Some (JStr ''done'')\<rparr>])],
             resp_edges = []\<rparr>"
    by code_simp
  from h l C2_second_snapshot_supersedes [OF h l] show ?thesis by blast
qed

subsection \<open>Sending the same snapshot again\<close>

text \<open>
  C5. Ingest of a snapshot, Load, Ingest of the same snapshot again, Load: the two Load
  results are identical (for every graphId asked), the second Ingest gives the response
  of the first, and the tables hold the same rows up to the store-assigned keys. When
  the snapshot is accepted, the graph has exactly one Step row per submitted call and
  one Edge row per submitted edge afterwards: no duplicate is left.
\<close>

theorem C5_reingest_is_idempotent:
  "fst (POST_ingest (snd (POST_ingest st body)) body) = fst (POST_ingest st body)
   \<and> GET_load (snd (POST_ingest (snd (POST_ingest st body)) body)) q
       = GET_load (snd (POST_ingest st body)) q
   \<and> map step_data (step_tbl (snd (POST_ingest (snd (POST_ingest st body)) body)))
       = map step_data (step_tbl (snd (POST_ingest st body)))
   \<and> map edge_data (edge_tbl (snd (POST_ingest (snd (POST_ingest st body)) body)))
       = map edge_data (edge_tbl (snd (POST_ingest st body)))
   \<and> (graphId body = Val g \<longrightarrow> g \<noteq> [] \<longrightarrow> g \<in> graph_ids st \<longrightarrow>
        length (step_findMany g (snd (POST_ingest (snd (POST_ingest st body)) body)))
          = count_calls (or_empty (nodes body))
      \<and> length (edge_findMany g (snd (POST_ingest (snd (POST_ingest st body)) body)))
          = length (or_empty (edges body)))"
proof -
  let ?st1 = "snd (POST_ingest st body)"
  let ?st2 = "snd (POST_ingest ?st1 body)"
  have eq: "fst (POST_ingest ?st1 body) = fst (POST_ingest st body)
      \<and> map step_data (step_tbl ?st2) = map step_data (step_tbl ?st1)
      \<and> map edge_data (edge_tbl ?st2) = map edge_data (edge_tbl ?st1)"
  proof (cases "\<exists>g'. graphId body = Val g' \<and> g' \<noteq> []")
    case True
    then obtain g' where "graphId body = Val g'" "g' \<noteq> []" by blast
    then show ?thesis using ingest_twice [of body g' body st] by simp
  next
    case False
    then have "graphId body = Undefined \<or> graphId body = Null \<or> graphId body = Val []"
      by (cases "graphId body") auto
    then have "\<And>s. POST_ingest s body = (Failed ''Failed'' 500, s)"
      by (rule POST_ingest_no_id)
    then show ?thesis by simp
  qed
  then have ld: "GET_load ?st2 q = GET_load ?st1 q"
    by (intro GET_load_data) simp_all
  have cnt: "graphId body = Val g \<longrightarrow> g \<noteq> [] \<longrightarrow> g \<in> graph_ids st \<longrightarrow>
        length (step_findMany g ?st2) = count_calls (or_empty (nodes body))
      \<and> length (edge_findMany g ?st2) = length (or_empty (edges body))"
    by (simp add: ingest_steps_of_graph ingest_edges_of_graph)
  from eq ld cnt show ?thesis by blast
qed

theorem C5_reingest_is_idempotent_witness:
  "GET_load (snd (POST_ingest ex_store ex_body)) (Some ''g1'') =
       Json \<lparr>resp_nodes = [(''start'', [\<lparr>stepIndex = 0, input = Some (JObj []),
                                          output = Some (JObj [(''msg'', JStr ''hi'')])\<rparr>])],
             resp_edges = [\<lparr>source = ''start'', target = ''end'', conditionKey = Undefined,
                            used_count = Val 1\<rparr>]\<rparr>
   \<and> GET_load (snd (POST_ingest (snd (POST_ingest ex_store ex_body)) ex_body)) (Some ''g1'')
       = GET_load (snd (POST_ingest ex_store ex_body)) (Some ''g1'')
   \<and> graphId ex_body = Val ''g1'' \<and> ''g1'' \<noteq> [] \<and> ''g1'' \<in> graph_ids ex_store
   \<and> length (step_findMany ''g1'' (snd (POST_ingest (snd (POST_ingest ex_store ex_body)) ex_body)))
       = count_calls (or_empty (nodes ex_body))
   \<and> count_calls (or_empty (nodes ex_body)) = 1"
proof -
  have l: "GET_load (snd (POST_ingest ex_store ex_body)) (Some ''g1'') =
       Json \<lparr>resp_nodes = [(''start'', [\<lparr>stepIndex = 0, input = Some (JObj []),
                                          output = Some (JObj [(''msg'', JStr ''hi'')])\<rparr>])],
             resp_edges = [\<lparr>source = ''start'', target = ''end'', conditionKey = Undefined,
                            used_count = Val 1\<rparr>]\<rparr>"
    by code_simp
  have h: "graphId ex_body = Val ''g1''" "''g1'' \<noteq> []" "''g1'' \<in> graph_ids ex_store"
    by (simp_all add: ex_body_def ex_store_def graph_ids_def)
  have c: "count_calls (or_empty (nodes ex_body)) = 1"
    by (simp add: ex_body_def or_empty_def)
  from l h c
    C5_reingest_is_idempotent [where st = ex_store and body = ex_body and g = "''g1''"
      and q = "Some ''g1''"]
  show ?thesis by blast
qed

subsection \<open>Ingest followed by Load\<close>





end
